theory Spec2Isabelle
  imports Main "HOL-Library.Multiset"
begin

section \<open>Dates\<close>

text \<open>
  A JavaScript \<open>Date\<close> is represented by the fields its local-time accessors read:
  \<open>getFullYear\<close>, \<open>getMonth\<close> (0 is January), \<open>getDate\<close> (1 is the first day of the
  month) and the milliseconds elapsed within the day. The local time zone is taken to be
  UTC; a constant offset would cancel in every comparison and difference the program
  makes. Changes of the offset (daylight saving) are not modelled: where a zone skips a
  local time, the program's \<open>setFullYear\<close> lands later on that day, so of the fields of
  a date made by \<open>setFullYear\<close> only the year, the month and the day of the month are
  stated in the theorems, never the time of day. Time values are unbounded integers (the
  limit of 8.64e15 ms on either side of the epoch is not modelled). The day arithmetic
  below is the one of ECMA-262 (\<open>DaysInYear\<close>, \<open>DayFromYear\<close>, \<open>MakeDay\<close>, \<open>MakeDate\<close>,
  \<open>Day\<close>).
\<close>

record jsdate =
  year :: int
  month :: int
  day :: int
  msInDay :: int

definition msPerDay :: int where
  "msPerDay = 86400000"

definition leap :: "int \<Rightarrow> bool" where
  "leap y = (y mod 4 = 0 \<and> (y mod 100 \<noteq> 0 \<or> y mod 400 = 0))"

definition DaysInYear :: "int \<Rightarrow> int" where
  "DaysInYear y = (if leap y then 366 else 365)"

definition DayFromYear :: "int \<Rightarrow> int" where
  "DayFromYear y =
     365 * (y - 1970) + (y - 1969) div 4 - (y - 1901) div 100 + (y - 1601) div 400"

definition daysInMonth :: "int \<Rightarrow> int \<Rightarrow> int" where
  "daysInMonth y m =
     (if m = 1 then (if leap y then 29 else 28)
      else if m = 3 \<or> m = 5 \<or> m = 8 \<or> m = 10 then 30 else 31)"

text \<open>The number of days of year \<open>y\<close> that precede its month \<open>m\<close>.\<close>

definition monthStart :: "int \<Rightarrow> int \<Rightarrow> int" where
  "monthStart y m =
     (if m = 0 then 0 else if m = 1 then 31
      else (if leap y then 1 else 0) +
        (if m = 2 then 59 else if m = 3 then 90 else if m = 4 then 120
         else if m = 5 then 151 else if m = 6 then 181 else if m = 7 then 212
         else if m = 8 then 243 else if m = 9 then 273 else if m = 10 then 304
         else 334))"

definition MakeDay :: "int \<Rightarrow> int \<Rightarrow> int \<Rightarrow> int" where
  "MakeDay y m d = DayFromYear y + monthStart y m + d - 1"

definition MakeDate :: "int \<Rightarrow> int \<Rightarrow> int" where
  "MakeDate dy tm = dy * msPerDay + tm"

definition getTime :: "jsdate \<Rightarrow> int" where
  "getTime dt = MakeDate (MakeDay (year dt) (month dt) (day dt)) (msInDay dt)"

text \<open>The dates a \<open>Date\<close> object can hold: the fields are those of a calendar day.\<close>

definition valid_date :: "jsdate \<Rightarrow> bool" where
  "valid_date dt =
     (0 \<le> month dt \<and> month dt < 12 \<and> 1 \<le> day dt
      \<and> day dt \<le> daysInMonth (year dt) (month dt)
      \<and> 0 \<le> msInDay dt \<and> msInDay dt < msPerDay)"

text \<open>
  The number of the calendar day a date lies on: two dates are on the same day when
  their day numbers are equal, and a date is on or after the day of another when its day
  number is not less.
\<close>

definition Day :: "jsdate \<Rightarrow> int" where
  "Day dt = getTime dt div msPerDay"

text \<open>
  \<open>a < b\<close> on two \<open>Date\<close> objects compares their time values.
\<close>

definition date_lt :: "jsdate \<Rightarrow> jsdate \<Rightarrow> bool" where
  "date_lt a b = (getTime a < getTime b)"

text \<open>
  \<open>setFullYear(y)\<close> keeps the month, the day of the month and the time within the day,
  and makes the date anew with \<open>MakeDay\<close>: a day of the month that year \<open>y\<close> does not
  have (29 February in a common year) runs over into the next month.
\<close>

definition setFullYear :: "int \<Rightarrow> jsdate \<Rightarrow> jsdate" where
  "setFullYear y dt =
     (if daysInMonth y (month dt) < day dt
      then dt\<lparr>year := y, month := month dt + 1, day := day dt - daysInMonth y (month dt)\<rparr>
      else dt\<lparr>year := y\<rparr>)"

section \<open>The anniversary calculator\<close>

text \<open>
  \<open>calculateNextAnniversary\<close> and \<open>calculateNextMilestoneAnniversary\<close> read the clock
  with \<open>new Date()\<close> (the source's \<open>today\<close>); the reading is the first argument, the
  release date the second.
\<close>

definition calculateNextAnniversary :: "jsdate \<Rightarrow> jsdate \<Rightarrow> jsdate" where
  "calculateNextAnniversary now rel =
     (let next = setFullYear (year now) rel
      in if date_lt next now then setFullYear (year now + 1) next else next)"

record milestone =
  date :: jsdate
  years :: int

text \<open>\<open>Math.ceil(n / 5)\<close> for an integer \<open>n\<close>.\<close>

definition ceil5 :: "int \<Rightarrow> int" where
  "ceil5 n = - ((- n) div 5)"

definition calculateNextMilestoneAnniversary :: "jsdate \<Rightarrow> jsdate \<Rightarrow> milestone" where
  "calculateNextMilestoneAnniversary now rel =
     (let yearsSinceRelease = year now - year rel;
          nextMilestoneYears = ceil5 yearsSinceRelease * 5;
          nextMilestone = setFullYear (year rel + nextMilestoneYears) rel
      in if date_lt nextMilestone now
         then \<lparr>date = setFullYear (year rel + nextMilestoneYears + 5) nextMilestone,
               years = nextMilestoneYears + 5\<rparr>
         else \<lparr>date = nextMilestone, years = nextMilestoneYears\<rparr>)"

section \<open>Resolving one list entry\<close>

record MovieAnniversary =
  title :: string
  releaseDate :: jsdate
  nextAnniversary :: jsdate
  url :: string

text \<open>
  The cache keeps both dates as the strings \<open>toISOString\<close> gives and reads them back with
  \<open>new Date(string)\<close>. The format has millisecond precision, so reading back gives the
  time value that was written; the string is represented by the date it denotes.
\<close>

datatype iso_string = ISO jsdate

definition toISOString :: "jsdate \<Rightarrow> iso_string" where
  "toISOString d = ISO d"

fun dateOfISO :: "iso_string \<Rightarrow> jsdate" where
  "dateOfISO (ISO d) = d"

record cache_entry =
  cachedReleaseDate :: iso_string
  lastFetched :: int
  cachedNextAnniversary :: iso_string

type_synonym CachedMovieData = "string \<rightharpoonup> cache_entry"

text \<open>
  What \<open>chrome.storage.local\<close> holds under the key \<open>movie-cache\<close>: nothing before the
  first write, the whole document afterwards.
\<close>

type_synonym storage = "CachedMovieData option"

text \<open>
  A poster container of the list page: the \<open>href\<close> of its first link and the \<open>alt\<close>
  text of its first image, where they exist.
\<close>

record movie_element =
  link :: "string option"
  img_alt :: "string option"

text \<open>
  The answer to \<open>fetch\<close>: the request is rejected, or a page comes back, of which only the
  trimmed text of the element \<open>.release-table .date\<close> is read (\<open>None\<close> when the page has
  no such element).
\<close>

datatype fetch_outcome = FetchRejected | Page "string option"

text \<open>
  What the outside world answers while one entry is resolved, in the order the code asks:
  whether the first read of the storage resolves (line 729), \<open>Date.now()\<close> at the expiry
  test (line 733), the answer to \<open>fetch\<close>, what \<open>new Date(releaseText)\<close> makes of a text
  (\<open>None\<close> for an invalid date), \<open>new Date()\<close> inside \<open>calculateNextAnniversary\<close>,
  whether the second read resolves (line 760), \<open>Date.now()\<close> at the cache write (line 764)
  and whether the write resolves (line 766); then the instants at which the operations
  the resolution awaits complete (\<open>awaits env k\<close> for the \<open>k\<close>-th of them, counted from 0:
  the first read, the request with the reading of its body, the second read, the write);
  and, last, the instant at which the promise of the entry settles.
\<close>

record item_env =
  get1_ok :: bool
  now1 :: int
  response :: fetch_outcome
  parseDate :: "string \<Rightarrow> jsdate option"
  today :: jsdate
  get2_ok :: bool
  now2 :: int
  set_ok :: bool
  awaits :: "nat \<Rightarrow> nat"
  settles :: nat

text \<open>
  The effects a run leaves behind, in order: storage reads and writes, requests, the
  messages of \<open>console.error\<close> (with the title they name), the slice each iteration of the
  batch loop takes, the progress text (processed and total count) and the timer between
  batches (its milliseconds).
\<close>

datatype event =
  StorageGet
  | StorageSet
  | Fetch string
  | ConsoleError string
  | BatchStart "movie_element list"
  | Progress nat nat
  | Delay nat

definition CACHE_EXPIRY :: int where
  "CACHE_EXPIRY = 24 * 60 * 60 * 1000"

text \<open>
  Lines 745 to 777: the path taken on a cache miss or an expired entry. Every rejected
  promise is an exception that the \<open>catch\<close> of line 778 turns into \<open>null\<close> after logging
  it. A rejected write leaves the storage as it was.
\<close>

definition fetchFresh ::
  "item_env \<Rightarrow> storage \<Rightarrow> string \<Rightarrow> string \<Rightarrow> MovieAnniversary option \<times> storage \<times> event list"
where
  "fetchFresh env st movieUrl ttl =
     (case response env of
        FetchRejected \<Rightarrow> (None, st, [Fetch movieUrl, ConsoleError ttl])
      | Page releaseDateElement \<Rightarrow>
          (case releaseDateElement of
             None \<Rightarrow> (None, st, [Fetch movieUrl])
           | Some releaseText \<Rightarrow>
               if releaseText = [] then (None, st, [Fetch movieUrl])
               else
                 (case parseDate env releaseText of
                    None \<Rightarrow> (None, st, [Fetch movieUrl])
                  | Some rel \<Rightarrow>
                      let next = calculateNextAnniversary (today env) rel in
                      if \<not> get2_ok env
                      then (None, st, [Fetch movieUrl, StorageGet, ConsoleError ttl])
                      else
                        let existingCache = (case st of None \<Rightarrow> Map.empty | Some doc \<Rightarrow> doc);
                            newCache = existingCache(movieUrl \<mapsto>
                              \<lparr>cachedReleaseDate = toISOString rel,
                               lastFetched = now2 env,
                               cachedNextAnniversary = toISOString next\<rparr>)
                        in if \<not> set_ok env
                           then (None, st,
                                 [Fetch movieUrl, StorageGet, StorageSet, ConsoleError ttl])
                           else (Some \<lparr>title = ttl, releaseDate = rel,
                                        nextAnniversary = next, url = movieUrl\<rparr>,
                                 Some newCache,
                                 [Fetch movieUrl, StorageGet, StorageSet]))))"

text \<open>Line 730: \<open>cachedData['movie-cache']?.[movieUrl]\<close>.\<close>

definition lookup :: "storage \<Rightarrow> string \<Rightarrow> cache_entry option" where
  "lookup st movieUrl = (case st of None \<Rightarrow> None | Some doc \<Rightarrow> doc movieUrl)"

text \<open>
  Lines 721 to 782: the function mapped over a batch, run from its first line to its
  return with nothing else touching the storage in between. It answers the entry's
  anniversary or \<open>null\<close> (\<open>None\<close>), the storage it leaves and the effects it had.
\<close>

definition resolveMovie ::
  "item_env \<Rightarrow> storage \<Rightarrow> movie_element \<Rightarrow> MovieAnniversary option \<times> storage \<times> event list"
where
  "resolveMovie env st el =
     (case link el of
        None \<Rightarrow> (None, st, [])
      | Some movieUrl \<Rightarrow>
          (case img_alt el of
             None \<Rightarrow> (None, st, [])
           | Some ttl \<Rightarrow>
               if ttl = [] then (None, st, [])
               else if \<not> get1_ok env then (None, st, [StorageGet, ConsoleError ttl])
               else
                 (case lookup st movieUrl of
                    Some movieCache \<Rightarrow>
                      if now1 env - lastFetched movieCache < CACHE_EXPIRY
                      then (Some \<lparr>title = ttl,
                                   releaseDate = dateOfISO (cachedReleaseDate movieCache),
                                   nextAnniversary = dateOfISO (cachedNextAnniversary movieCache),
                                   url = movieUrl\<rparr>,
                            st, [StorageGet])
                      else (case fetchFresh env st movieUrl ttl of
                              (r, st', evs) \<Rightarrow> (r, st', StorageGet # evs))
                  | None \<Rightarrow>
                      (case fetchFresh env st movieUrl ttl of
                         (r, st', evs) \<Rightarrow> (r, st', StorageGet # evs)))))"

section \<open>The batch loop\<close>

text \<open>
  An entry of the list together with what the world answers while it is resolved.
\<close>

type_synonym item = "movie_element \<times> item_env"

text \<open>
  The resolutions of a batch run interleaved: each one runs until it awaits an operation
  and goes on when that operation completes, and between two awaits nothing else runs.
  So the function of lines 721 to 782 is cut at its awaits. A resolution is waiting for
  its first read of the storage (line 729), for the page (lines 746 and 747), for its
  second read (line 760, with the release date and the anniversary it has computed) or
  for its write (line 766, with the document \<open>newCache\<close> that it has built from what the
  second read gave it), or it has settled with its value.
\<close>

datatype pending =
  AwaitGet1 string string
  | AwaitFetch string string
  | AwaitGet2 string string jsdate jsdate
  | AwaitSet string string jsdate jsdate CachedMovieData
  | Settled "MovieAnniversary option"

text \<open>Lines 722 to 729: up to the first await.\<close>

definition start :: "movie_element \<Rightarrow> pending" where
  "start el =
     (case link el of
        None \<Rightarrow> Settled None
      | Some movieUrl \<Rightarrow>
          (case img_alt el of
             None \<Rightarrow> Settled None
           | Some ttl \<Rightarrow> if ttl = [] then Settled None else AwaitGet1 movieUrl ttl))"

text \<open>
  The awaited operation completes on the storage \<open>st\<close>, and the resolution runs to its
  next await or to its return: lines 729 to 746, 746 to 760, 760 to 766 and 766 to 773.
  The write stores the whole document that the resolution built after its second read.
\<close>

fun resume :: "item_env \<Rightarrow> storage \<Rightarrow> pending \<Rightarrow> pending \<times> storage \<times> event list" where
  "resume env st (AwaitGet1 movieUrl ttl) =
     (if \<not> get1_ok env then (Settled None, st, [StorageGet, ConsoleError ttl])
      else
        (case lookup st movieUrl of
           Some movieCache \<Rightarrow>
             if now1 env - lastFetched movieCache < CACHE_EXPIRY
             then (Settled (Some \<lparr>title = ttl,
                       releaseDate = dateOfISO (cachedReleaseDate movieCache),
                       nextAnniversary = dateOfISO (cachedNextAnniversary movieCache),
                       url = movieUrl\<rparr>),
                   st, [StorageGet])
             else (AwaitFetch movieUrl ttl, st, [StorageGet])
         | None \<Rightarrow> (AwaitFetch movieUrl ttl, st, [StorageGet])))"
| "resume env st (AwaitFetch movieUrl ttl) =
     (case response env of
        FetchRejected \<Rightarrow> (Settled None, st, [Fetch movieUrl, ConsoleError ttl])
      | Page releaseDateElement \<Rightarrow>
          (case releaseDateElement of
             None \<Rightarrow> (Settled None, st, [Fetch movieUrl])
           | Some releaseText \<Rightarrow>
               if releaseText = [] then (Settled None, st, [Fetch movieUrl])
               else
                 (case parseDate env releaseText of
                    None \<Rightarrow> (Settled None, st, [Fetch movieUrl])
                  | Some rel \<Rightarrow>
                      (AwaitGet2 movieUrl ttl rel (calculateNextAnniversary (today env) rel),
                       st, [Fetch movieUrl]))))"
| "resume env st (AwaitGet2 movieUrl ttl rel next) =
     (if \<not> get2_ok env then (Settled None, st, [StorageGet, ConsoleError ttl])
      else
        (AwaitSet movieUrl ttl rel next
           ((case st of None \<Rightarrow> Map.empty | Some doc \<Rightarrow> doc)(movieUrl \<mapsto>
              \<lparr>cachedReleaseDate = toISOString rel,
               lastFetched = now2 env,
               cachedNextAnniversary = toISOString next\<rparr>)),
         st, [StorageGet]))"
| "resume env st (AwaitSet movieUrl ttl rel next newCache) =
     (if \<not> set_ok env then (Settled None, st, [StorageSet, ConsoleError ttl])
      else (Settled (Some \<lparr>title = ttl, releaseDate = rel, nextAnniversary = next,
                           url = movieUrl\<rparr>),
            Some newCache, [StorageSet]))"
| "resume env st (Settled r) = (Settled r, st, [])"

text \<open>What a promise has resolved to.\<close>

fun outcome :: "pending \<Rightarrow> MovieAnniversary option" where
  "outcome (Settled r) = r"
| "outcome p = None"

text \<open>
  The resolutions \<open>ps\<close> of a batch, resumed in the order \<open>sched\<close>: each index in \<open>sched\<close>
  stands for the completion of the operation which the resolution of that index awaits.
\<close>

fun interleave ::
  "nat list \<Rightarrow> item list \<Rightarrow> pending list \<Rightarrow> storage \<Rightarrow> event list
    \<Rightarrow> pending list \<times> storage \<times> event list"
where
  "interleave [] batch ps st evs = (ps, st, evs)"
| "interleave (i # sched) batch ps st evs =
     (if i < length ps
      then (case resume (snd (batch ! i)) st (ps ! i) of
              (p, st', ev) \<Rightarrow> interleave sched batch (ps[i := p]) st' (evs @ ev))
      else interleave sched batch ps st evs)"

text \<open>
  The order in which the awaited operations of a batch complete: by their instants, and
  for one and the same instant in the order of the batch. An entry has at most four
  awaits; each of its four turns resumes it where it stands.
\<close>

definition schedule :: "item list \<Rightarrow> nat list" where
  "schedule batch =
     map snd (sort_key fst
       (concat (map (\<lambda>i. map (\<lambda>k. (awaits (snd (batch ! i)) k, i)) [0..<4])
                  [0..<length batch])))"

text \<open>
  \<open>batch.map(...)\<close>, lines 721 to 782, to the point where every promise of the batch has
  settled: the values of the promises, the storage left and the effects.
\<close>

definition resolveBatch ::
  "storage \<Rightarrow> item list \<Rightarrow> MovieAnniversary option list \<times> storage \<times> event list"
where
  "resolveBatch st batch =
     (case interleave (schedule batch) batch (map (\<lambda>x. start (fst x)) batch) st [] of
        (ps, st', evs) \<Rightarrow> (map outcome ps, st', evs))"

text \<open>
  The resolutions of a batch one after the other, each from its first line to its return:
  what the interleaving comes to when all operations complete at one and the same instant
  (lemma \<open>resolveBatch_in_turn\<close>).
\<close>

fun resolveInTurn ::
  "storage \<Rightarrow> item list \<Rightarrow> MovieAnniversary option list \<times> storage \<times> event list"
where
  "resolveInTurn st [] = ([], st, [])"
| "resolveInTurn st (x # xs) =
     (case resolveMovie (snd x) st (fst x) of
        (r, st', ev) \<Rightarrow>
          (case resolveInTurn st' xs of
             (rs, st'', evs) \<Rightarrow> (r # rs, st'', ev @ evs)))"

text \<open>\<open>xs.slice(a, b)\<close> for indices \<open>0 \<le> a \<le> b\<close>.\<close>

definition slice :: "nat \<Rightarrow> nat \<Rightarrow> 'a list \<Rightarrow> 'a list" where
  "slice a b xs = take (b - a) (drop a xs)"

text \<open>\<open>results.filter(result => result !== null)\<close>.\<close>

definition successes :: "'a option list \<Rightarrow> 'a list" where
  "successes rs = map the (filter (\<lambda>r. r \<noteq> None) rs)"

record run_state =
  processedMovies :: nat
  movies :: "MovieAnniversary list"
  cache :: storage
  trace :: "event list"

text \<open>
  \<open>Promise.all\<close> keeps one slot per promise and resolves, with the slots in the order of
  the promises, once every promise has settled. \<open>fill\<close> stores the values in the order
  \<open>ord\<close> in which the promises (given by their indices) settle; while a slot is empty the
  promise of \<open>Promise.all\<close> is pending (\<open>None\<close>).
\<close>

fun fill :: "'a list \<Rightarrow> nat list \<Rightarrow> 'a option list \<Rightarrow> 'a option list" where
  "fill vs [] slots = slots"
| "fill vs (i # ord) slots = fill vs ord (slots[i := Some (vs ! i)])"

definition promiseAll :: "nat list \<Rightarrow> 'a list \<Rightarrow> 'a list option" where
  "promiseAll ord vs =
     (let slots = fill vs ord (replicate (length vs) None)
      in if list_all (\<lambda>x. x \<noteq> None) slots then Some (map the slots) else None)"

text \<open>The indices of a batch in the order in which its resolutions settle.\<close>

definition completion_order :: "item list \<Rightarrow> nat list" where
  "completion_order batch =
     sort_key (\<lambda>i. settles (snd (batch ! i))) [0..<length batch]"

text \<open>
  Lines 785 to 793, what an iteration does once \<open>Promise.all\<close> has resolved with
  \<open>batchResults\<close>: \<open>n\<close> is \<open>totalMovies\<close>, \<open>d\<close> the delay and \<open>again\<close> the test
  \<open>i + BATCH_SIZE < movieArray.length\<close>; \<open>st'\<close> and \<open>evs\<close> are the storage and the effects
  the resolutions of the batch have left.
\<close>

definition after_batch ::
  "nat \<Rightarrow> nat \<Rightarrow> item list \<Rightarrow> bool \<Rightarrow> run_state \<Rightarrow> MovieAnniversary option list \<Rightarrow> storage
    \<Rightarrow> event list \<Rightarrow> run_state"
where
  "after_batch d n batch again s batchResults st' evs =
     \<lparr>processedMovies = processedMovies s + length batch,
      movies = movies s @ successes batchResults,
      cache = st',
      trace = trace s @ BatchStart (map fst batch) # evs
        @ Progress (processedMovies s + length batch) n
        # (if again then [Delay d] else [])\<rparr>"

text \<open>
  Lines 720 to 793, one iteration of the loop on the slice \<open>batch\<close>. It goes on only when
  \<open>Promise.all\<close> resolves.
\<close>

definition batch_step ::
  "nat \<Rightarrow> nat \<Rightarrow> item list \<Rightarrow> bool \<Rightarrow> run_state \<Rightarrow> run_state option"
where
  "batch_step d n batch again s =
     (case resolveBatch (cache s) batch of
        (rs, st', evs) \<Rightarrow>
          (case promiseAll (completion_order batch) rs of
             None \<Rightarrow> None
           | Some batchResults \<Rightarrow> Some (after_batch d n batch again s batchResults st' evs)))"

text \<open>
  Lines 719 to 794. The batch size \<open>b\<close> and the delay \<open>d\<close> are parameters here; the
  program fixes them (\<open>BATCH_SIZE\<close>, \<open>DELAY_BETWEEN_BATCHES\<close>). With a batch size of 0 the
  index would never advance: the loop would not end, and the value is \<open>None\<close>.
\<close>

partial_function (option) batch_loop ::
  "nat \<Rightarrow> nat \<Rightarrow> item list \<Rightarrow> nat \<Rightarrow> run_state \<Rightarrow> run_state option"
where
  "batch_loop b d movieArray i s =
     (if i < length movieArray
      then Option.bind
             (batch_step d (length movieArray) (slice i (i + b) movieArray)
                (i + b < length movieArray) s)
             (\<lambda>s'. batch_loop b d movieArray (i + b) s')
      else Some s)"

text \<open>
  \<open>Array.prototype.sort\<close> with a comparison function is stable; for a consistent
  comparison its result is the one of a stable insertion sort.
\<close>

fun insert_by :: "('a \<Rightarrow> 'a \<Rightarrow> int) \<Rightarrow> 'a \<Rightarrow> 'a list \<Rightarrow> 'a list" where
  "insert_by cmp x [] = [x]"
| "insert_by cmp x (y # ys) =
     (if cmp x y \<le> 0 then x # y # ys else y # insert_by cmp x ys)"

definition array_sort :: "('a \<Rightarrow> 'a \<Rightarrow> int) \<Rightarrow> 'a list \<Rightarrow> 'a list" where
  "array_sort cmp xs = foldr (insert_by cmp) xs []"

text \<open>Line 803: the comparison function.\<close>

definition compareAnniversary :: "MovieAnniversary \<Rightarrow> MovieAnniversary \<Rightarrow> int" where
  "compareAnniversary a b = getTime (nextAnniversary a) - getTime (nextAnniversary b)"

text \<open>
  Lines 673 to 803, the click handler from the first batch to the sorted list: it starts
  from no processed movie, an empty list and the storage as it finds it.
\<close>

definition showAnniversaries :: "nat \<Rightarrow> nat \<Rightarrow> item list \<Rightarrow> storage \<Rightarrow> run_state option" where
  "showAnniversaries b d movieArray st =
     (case batch_loop b d movieArray 0
             \<lparr>processedMovies = 0, movies = [], cache = st, trace = []\<rparr> of
        None \<Rightarrow> None
      | Some s \<Rightarrow> Some (s\<lparr>movies := array_sort compareAnniversary (movies s)\<rparr>))"

definition BATCH_SIZE :: nat where
  "BATCH_SIZE = 5"

definition DELAY_BETWEEN_BATCHES :: nat where
  "DELAY_BETWEEN_BATCHES = 1000"

definition onClick :: "item list \<Rightarrow> storage \<Rightarrow> run_state option" where
  "onClick = showAnniversaries BATCH_SIZE DELAY_BETWEEN_BATCHES"

section \<open>Reading a run\<close>

text \<open>The slices the loop took, and the processed counts it reported, in order.\<close>

fun batches_of :: "event list \<Rightarrow> movie_element list list" where
  "batches_of [] = []"
| "batches_of (BatchStart b # es) = b # batches_of es"
| "batches_of (e # es) = batches_of es"

fun progress_of :: "event list \<Rightarrow> nat list" where
  "progress_of [] = []"
| "progress_of (Progress p n # es) = p # progress_of es"
| "progress_of (e # es) = progress_of es"

fun delays_of :: "event list \<Rightarrow> nat list" where
  "delays_of [] = []"
| "delays_of (Delay d # es) = d # delays_of es"
| "delays_of (e # es) = delays_of es"

text \<open>The effects of resolving an entry, as opposed to those of the loop itself.\<close>

definition item_event :: "event \<Rightarrow> bool" where
  "item_event e = (case e of BatchStart b \<Rightarrow> False | Progress p n \<Rightarrow> False
     | Delay d \<Rightarrow> False | _ \<Rightarrow> True)"

text \<open>The results of resolving a batch, and the storage left.\<close>

definition results :: "storage \<Rightarrow> item list \<Rightarrow> MovieAnniversary option list" where
  "results st xs = fst (resolveBatch st xs)"

definition cache_after :: "storage \<Rightarrow> item list \<Rightarrow> storage" where
  "cache_after st xs = fst (snd (resolveBatch st xs))"

text \<open>
  The schedule in the specification's words: the batches are the consecutive groups of at
  most \<open>b\<close> entries; each batch is resolved, then progress is reported once, then, unless
  the batch was the last, the scheduler waits for the delay.
\<close>

function chunks :: "nat \<Rightarrow> 'a list \<Rightarrow> 'a list list" where
  "chunks b xs = (if b = 0 \<or> xs = [] then [] else take b xs # chunks b (drop b xs))"
  by pat_completeness auto
termination
  by (relation "measure (\<lambda>(b, xs). length xs)") auto

fun schedule_trace :: "nat \<Rightarrow> nat \<Rightarrow> nat \<Rightarrow> storage \<Rightarrow> item list list \<Rightarrow> event list" where
  "schedule_trace d n p st [] = []"
| "schedule_trace d n p st (c # cs) =
     BatchStart (map fst c) # snd (snd (resolveBatch st c))
       @ Progress (p + length c) n
       # (if cs = [] then [] else Delay d # schedule_trace d n (p + length c) (cache_after st c) cs)"

text \<open>One iteration on the batch \<open>c\<close>, with the results taken by position.\<close>

definition batch_done :: "nat \<Rightarrow> nat \<Rightarrow> item list \<Rightarrow> bool \<Rightarrow> run_state \<Rightarrow> run_state" where
  "batch_done d n c again s =
     (case resolveBatch (cache s) c of
        (rs, st', evs) \<Rightarrow> after_batch d n c again s rs st' evs)"

fun process_chunks :: "nat \<Rightarrow> nat \<Rightarrow> item list list \<Rightarrow> run_state \<Rightarrow> run_state" where
  "process_chunks d n [] s = s"
| "process_chunks d n (c # cs) s = process_chunks d n cs (batch_done d n c (cs \<noteq> []) s)"

fun running :: "nat \<Rightarrow> 'a list list \<Rightarrow> nat list" where
  "running p [] = []"
| "running p (c # cs) = (p + length c) # running (p + length c) cs"

text \<open>
  The results of a run, entry by entry in the order of the input, and the storage the run
  leaves: batch after batch, each on the storage the one before has left.
\<close>

fun chunk_results :: "storage \<Rightarrow> item list list \<Rightarrow> MovieAnniversary option list" where
  "chunk_results st [] = []"
| "chunk_results st (c # cs) = results st c @ chunk_results (cache_after st c) cs"

fun chunk_cache :: "storage \<Rightarrow> item list list \<Rightarrow> storage" where
  "chunk_cache st [] = st"
| "chunk_cache st (c # cs) = chunk_cache (cache_after st c) cs"

definition run_results :: "nat \<Rightarrow> storage \<Rightarrow> item list \<Rightarrow> MovieAnniversary option list" where
  "run_results b st arr = chunk_results st (chunks b arr)"

definition run_cache :: "nat \<Rightarrow> storage \<Rightarrow> item list \<Rightarrow> storage" where
  "run_cache b st arr = chunk_cache st (chunks b arr)"

section \<open>Notions for the facts about the interleaving\<close>

text \<open>Four turns in a row.\<close>

definition four :: "item_env \<Rightarrow> storage \<Rightarrow> pending \<Rightarrow> pending \<times> storage \<times> event list" where
  "four env st p =
     (case resume env st p of (p1, s1, e1) \<Rightarrow>
      case resume env s1 p1 of (p2, s2, e2) \<Rightarrow>
      case resume env s2 p2 of (p3, s3, e3) \<Rightarrow>
      case resume env s3 p3 of (p4, s4, e4) \<Rightarrow> (p4, s4, e1 @ e2 @ e3 @ e4))"

text \<open>The number of turns a resolution can still need.\<close>

fun rank :: "pending \<Rightarrow> nat" where
  "rank (AwaitGet1 u t) = 4"
| "rank (AwaitFetch u t) = 3"
| "rank (AwaitGet2 u t r n) = 2"
| "rank (AwaitSet u t r n c) = 1"
| "rank (Settled r) = 0"

text \<open>Four turns for every entry of a batch of \<open>n\<close> entries, entry after entry.\<close>

definition turns :: "nat \<Rightarrow> nat list" where
  "turns n = concat (map (replicate 4) [0..<n])"

text \<open>
  The failures of the fetch path, and an entry of the list that, its address being \<open>u\<close>,
  can only fail: in the storage there is no valid entry for it (\<open>e0\<close> is what the storage
  holds for \<open>u\<close>). Beside a run, the run in which such an entry is replaced by a poster
  without a link, which settles with \<open>null\<close> at once and has no effect: the resolutions
  of the two runs are \<open>paired\<close> when they differ only in that entry.
\<close>

definition fetch_fails :: "item_env \<Rightarrow> bool" where
  "fetch_fails env \<longleftrightarrow>
     response env = FetchRejected \<or> response env = Page None
     \<or> response env = Page (Some []) \<or> (\<exists>txt. response env = Page (Some txt)
          \<and> parseDate env txt = None)"

definition no_valid_entry :: "cache_entry option \<Rightarrow> item_env \<Rightarrow> bool" where
  "no_valid_entry e0 env \<longleftrightarrow>
     (\<forall>e. e0 = Some e \<longrightarrow> \<not> now1 env - lastFetched e < CACHE_EXPIRY)"

fun avoids :: "string \<Rightarrow> cache_entry option \<Rightarrow> pending \<Rightarrow> bool" where
  "avoids u e0 (AwaitGet1 v t) \<longleftrightarrow> v \<noteq> u"
| "avoids u e0 (AwaitFetch v t) \<longleftrightarrow> v \<noteq> u"
| "avoids u e0 (AwaitGet2 v t r n) \<longleftrightarrow> v \<noteq> u"
| "avoids u e0 (AwaitSet v t r n doc) \<longleftrightarrow> v \<noteq> u \<and> doc u = e0"
| "avoids u e0 (Settled r) \<longleftrightarrow> (\<forall>m. r = Some m \<longrightarrow> url m \<noteq> u)"

fun doomed :: "string \<Rightarrow> pending \<Rightarrow> bool" where
  "doomed u (AwaitGet1 v t) \<longleftrightarrow> v = u"
| "doomed u (AwaitFetch v t) \<longleftrightarrow> v = u"
| "doomed u (Settled r) \<longleftrightarrow> r = None"
| "doomed u p \<longleftrightarrow> False"

definition paired ::
  "string \<Rightarrow> cache_entry option \<Rightarrow> item list \<Rightarrow> pending list \<Rightarrow> pending list \<Rightarrow> bool" where
  "paired u e0 batch ps ps' \<longleftrightarrow>
     length ps' = length ps
     \<and> (\<forall>j < length ps.
          (ps' ! j = ps ! j \<and> avoids u e0 (ps ! j))
          \<or> (doomed u (ps ! j) \<and> ps' ! j = Settled None
              \<and> fetch_fails (snd (batch ! j)) \<and> no_valid_entry e0 (snd (batch ! j))))"

definition inert :: movie_element where
  "inert = \<lparr>link = None, img_alt = None\<rparr>"

definition spared :: "string \<Rightarrow> cache_entry option \<Rightarrow> item \<Rightarrow> item \<Rightarrow> bool" where
  "spared u e0 x x' \<longleftrightarrow>
     (x' = x \<and> link (fst x) \<noteq> Some u)
     \<or> (link (fst x) = Some u \<and> fetch_fails (snd x) \<and> no_valid_entry e0 (snd x)
         \<and> x' = (inert, snd x))"

section \<open>Sample data\<close>

text \<open>
  A poster with a link and a title; a world in which everything succeeds on 10 June 2025
  at noon, at one and the same instant, and the page of every film gives the release date
  15 June 2000; and the same world with one failure each.
\<close>

definition poster :: "string \<Rightarrow> string \<Rightarrow> movie_element" where
  "poster u t = \<lparr>link = Some u, img_alt = Some t\<rparr>"

definition sample_parse :: "string \<Rightarrow> jsdate option" where
  "sample_parse t =
     (if t = ''15 Jun 2000'' then Some \<lparr>year = 2000, month = 5, day = 15, msInDay = 0\<rparr>
      else None)"

definition env_ok :: item_env where
  "env_ok =
     \<lparr>get1_ok = True, now1 = 1749556800000, response = Page (Some ''15 Jun 2000''),
      parseDate = sample_parse,
      today = \<lparr>year = 2025, month = 5, day = 10, msInDay = 43200000\<rparr>,
      get2_ok = True, now2 = 1749556800000, set_ok = True,
      awaits = (\<lambda>k. 0), settles = 0\<rparr>"

definition env_offline :: item_env where
  "env_offline = env_ok\<lparr>response := FetchRejected\<rparr>"

definition env_unreadable :: item_env where
  "env_unreadable = env_ok\<lparr>get1_ok := False\<rparr>"

definition env_unwritable :: item_env where
  "env_unwritable = env_ok\<lparr>set_ok := False\<rparr>"

text \<open>
  The same world again with a page that has no date element, with one whose date element
  is empty, and with one whose date element holds no date.
\<close>

definition env_nodate :: item_env where
  "env_nodate = env_ok\<lparr>response := Page None\<rparr>"

definition env_blank :: item_env where
  "env_blank = env_ok\<lparr>response := Page (Some [])\<rparr>"

definition env_garbage :: item_env where
  "env_garbage = env_ok\<lparr>response := Page (Some ''soon'')\<rparr>"

text \<open>
  A storage that holds three films resolved a little before that noon: their next
  anniversaries are 1 March 2026, 15 January 2026 and 15 June 2025.
\<close>

definition cached :: "jsdate \<Rightarrow> jsdate \<Rightarrow> cache_entry" where
  "cached rel next =
     \<lparr>cachedReleaseDate = toISOString rel, lastFetched = 1749556000000,
      cachedNextAnniversary = toISOString next\<rparr>"

definition sample_cache :: storage where
  "sample_cache = Some
     [''/film/a/'' \<mapsto> cached \<lparr>year = 2000, month = 2, day = 1, msInDay = 0\<rparr>
                             \<lparr>year = 2026, month = 2, day = 1, msInDay = 0\<rparr>,
      ''/film/b/'' \<mapsto> cached \<lparr>year = 1995, month = 0, day = 15, msInDay = 0\<rparr>
                             \<lparr>year = 2026, month = 0, day = 15, msInDay = 0\<rparr>,
      ''/film/c/'' \<mapsto> cached \<lparr>year = 2000, month = 5, day = 15, msInDay = 0\<rparr>
                             \<lparr>year = 2025, month = 5, day = 15, msInDay = 0\<rparr>]"

text \<open>
  The same world on 14 June 2025 at noon, the eve of the anniversary, and on 15 June 2025
  at six in the morning, when the network is down.
\<close>

definition env_eve :: item_env where
  "env_eve = env_ok\<lparr>now1 := 1749902400000,
     today := \<lparr>year = 2025, month = 5, day = 14, msInDay = 43200000\<rparr>,
     now2 := 1749902400000\<rparr>"

definition env_morning :: item_env where
  "env_morning = env_ok\<lparr>now1 := 1749967200000, response := FetchRejected,
     today := \<lparr>year = 2025, month = 5, day = 15, msInDay = 21600000\<rparr>,
     now2 := 1749967200000\<rparr>"



text \<open>
  The cache entry of a film released on 15 June 2000, as written at clock reading \<open>n\<close>
  before the anniversary of 2025.
\<close>

definition cached_at :: "int \<Rightarrow> cache_entry" where
  "cached_at n =
     \<lparr>cachedReleaseDate = toISOString \<lparr>year = 2000, month = 5, day = 15, msInDay = 0\<rparr>,
      lastFetched = n,
      cachedNextAnniversary = toISOString \<lparr>year = 2025, month = 5, day = 15, msInDay = 0\<rparr>\<rparr>"
section \<open>Facts about the calendar\<close>

lemma div_step:
  fixes a n :: int assumes "0 < n"
  shows "(a + 1) div n = a div n + (if (a + 1) mod n = 0 then 1 else 0)"
proof -
  define r where "r = a mod n"
  have r: "0 \<le> r" "r < n" using assms by (simp_all add: r_def)
  have a: "a + 1 = (r + 1) + (a div n) * n" by (simp add: r_def)
  have d: "(a + 1) div n = (r + 1) div n + a div n" unfolding a using assms by simp
  have m: "(a + 1) mod n = (r + 1) mod n" unfolding a by simp
  show ?thesis
  proof (cases "r + 1 = n")
    case True then show ?thesis using d m assms by simp
  next
    case False hence "r + 1 < n" using r by simp
    then show ?thesis using d m r by (simp add: div_pos_pos_trivial mod_pos_pos_trivial)
  qed
qed

lemma mod_shift: "((y::int) - k * n) mod n = y mod n"
  by (simp add: mod_diff_right_eq [symmetric])

lemma m4: "((y::int) - 1968) mod 4 = y mod 4" using mod_shift [of y 492 4] by simp
lemma m100: "((y::int) - 1900) mod 100 = y mod 100" using mod_shift [of y 19 100] by simp
lemma m400: "((y::int) - 1600) mod 400 = y mod 400" using mod_shift [of y 4 400] by simp

lemma d400: "(y::int) mod 400 = 0 \<Longrightarrow> y mod 100 = 0"
  using dvd_trans [of 100 400 y] by (simp add: mod_eq_0_iff_dvd)
lemma d100: "(y::int) mod 100 = 0 \<Longrightarrow> y mod 4 = 0"
  using dvd_trans [of 4 100 y] by (simp add: mod_eq_0_iff_dvd)

lemma div_step_at:
  fixes y :: int
  assumes "0 < n" and "j1 = j + 1" and "(y - j) mod n = y mod n"
  shows "(y - j) div n = (y - j1) div n + (if y mod n = 0 then 1 else 0)"
proof -
  have "y - j1 + 1 = y - j" using assms(2) by simp
  then show ?thesis using div_step [OF assms(1), of "y - j1"] assms(3) by (simp only:)
qed

lemma DayFromYear_Suc: "DayFromYear (y + 1) = DayFromYear y + DaysInYear y"
proof -
  define A where "A = (y - 1969) div 4"
  define B where "B = (y - 1901) div 100"
  define C where "C = (y - 1601) div 400"
  define p4 where "p4 \<longleftrightarrow> y mod 4 = 0"
  define p100 where "p100 \<longleftrightarrow> y mod 100 = 0"
  define p400 where "p400 \<longleftrightarrow> y mod 400 = 0"
  have e: "y + 1 - 1970 = y - 1969" "y + 1 - 1969 = y - 1968" "y + 1 - 1901 = y - 1900"
    "y + 1 - 1601 = y - 1600"
    by simp_all
  have a0: "(y - 1968) div 4 = (y - 1969) div 4 + (if y mod 4 = 0 then 1 else 0)"
    by (rule div_step_at [OF _ _ m4]) simp_all
  have b0: "(y - 1900) div 100 = (y - 1901) div 100 + (if y mod 100 = 0 then 1 else 0)"
    by (rule div_step_at [OF _ _ m100]) simp_all
  have c0: "(y - 1600) div 400 = (y - 1601) div 400 + (if y mod 400 = 0 then 1 else 0)"
    by (rule div_step_at [OF _ _ m400]) simp_all
  have imp: "p400 \<longrightarrow> p100" "p100 \<longrightarrow> p4"
    unfolding p4_def p100_def p400_def using d400 [of y] d100 [of y] by blast+
  have l: "DaysInYear y = (if p4 \<and> (\<not> p100 \<or> p400) then 366 else 365)"
    by (simp only: DaysInYear_def leap_def p4_def p100_def p400_def)
  have n: "DayFromYear y = 365 * (y - 1970) + A - B + C"
    by (simp only: DayFromYear_def A_def B_def C_def)
  have "DayFromYear (y + 1) =
      365 * (y - 1969) + (y - 1968) div 4 - (y - 1900) div 100 + (y - 1600) div 400"
    by (simp only: DayFromYear_def e)
  also have "\<dots> = 365 * (y - 1969) + (A + (if p4 then 1 else 0))
      - (B + (if p100 then 1 else 0)) + (C + (if p400 then 1 else 0))"
    by (simp only: a0 b0 c0 A_def B_def C_def p4_def p100_def p400_def)
  also have "\<dots> = DayFromYear y + DaysInYear y"
    unfolding n l using imp by (cases p4; cases p100; cases p400; simp)
  finally show ?thesis .
qed
lemma DaysInYear_pos: "365 \<le> DaysInYear y"
  by (simp add: DaysInYear_def)

lemma DayFromYear_mono: "y1 \<le> y2 \<Longrightarrow> DayFromYear y1 \<le> DayFromYear y2"
proof (induction y2 rule: int_ge_induct)
  case base
  show ?case by simp
next
  case (step i)
  then show ?case using DayFromYear_Suc [of i] DaysInYear_pos [of i] by simp
qed

lemma month_cases:
  fixes m :: int
  assumes "0 \<le> m" and "m < 12"
  shows "m = 0 \<or> m = 1 \<or> m = 2 \<or> m = 3 \<or> m = 4 \<or> m = 5 \<or> m = 6 \<or> m = 7
    \<or> m = 8 \<or> m = 9 \<or> m = 10 \<or> m = 11"
  using assms by arith

lemma dayWithinYear_bounds:
  assumes "0 \<le> m" and "m < 12" and "1 \<le> d" and "d \<le> daysInMonth y m"
  shows "0 \<le> monthStart y m + d - 1" and "monthStart y m + d - 1 < DaysInYear y"
  using month_cases [OF assms(1,2)] assms(3,4)
  by (auto simp: monthStart_def daysInMonth_def DaysInYear_def)

lemma getTime_bounds:
  assumes "valid_date dt"
  shows "DayFromYear (year dt) * msPerDay \<le> getTime dt"
    and "getTime dt < DayFromYear (year dt + 1) * msPerDay"
proof -
  define w where "w = monthStart (year dt) (month dt) + day dt - 1"
  have w: "0 \<le> w" "w < DaysInYear (year dt)"
    using assms dayWithinYear_bounds [of "month dt" "day dt" "year dt"]
    by (simp_all add: valid_date_def w_def)
  have t: "0 \<le> msInDay dt" "msInDay dt < msPerDay"
    using assms by (simp_all add: valid_date_def)
  have g: "getTime dt = (DayFromYear (year dt) + w) * msPerDay + msInDay dt"
    by (simp add: getTime_def MakeDate_def MakeDay_def w_def)
  have p: "0 < msPerDay" by (simp add: msPerDay_def)
  have "DayFromYear (year dt) * msPerDay \<le> (DayFromYear (year dt) + w) * msPerDay"
    using w(1) p by (simp add: mult_right_mono)
  then show "DayFromYear (year dt) * msPerDay \<le> getTime dt"
    unfolding g using t(1) by simp
  have "DayFromYear (year dt) + w + 1 \<le> DayFromYear (year dt + 1)"
    using w(2) by (simp add: DayFromYear_Suc)
  then have "(DayFromYear (year dt) + w + 1) * msPerDay \<le> DayFromYear (year dt + 1) * msPerDay"
    using p by (simp only: mult_right_mono)
  then show "getTime dt < DayFromYear (year dt + 1) * msPerDay"
    unfolding g using t(2) by (simp add: algebra_simps)
qed

lemma year_less_getTime:
  assumes "valid_date a" and "valid_date b" and "year a < year b"
  shows "getTime a < getTime b"
proof -
  have "DayFromYear (year a + 1) \<le> DayFromYear (year b)"
    using assms(3) by (simp add: DayFromYear_mono)
  then have "DayFromYear (year a + 1) * msPerDay \<le> DayFromYear (year b) * msPerDay"
    by (simp add: mult_right_mono msPerDay_def)
  then show ?thesis
    using getTime_bounds(2) [OF assms(1)] getTime_bounds(1) [OF assms(2)] by simp
qed

lemma setFullYear_fields:
  assumes "valid_date dt"
  shows "year (setFullYear y dt) = y" and "msInDay (setFullYear y dt) = msInDay dt"
    and "valid_date (setFullYear y dt)"
    and "\<not> (month dt = 1 \<and> day dt = 29) \<Longrightarrow>
           month (setFullYear y dt) = month dt \<and> day (setFullYear y dt) = day dt"
    and "month dt = 1 \<and> day dt = 29 \<Longrightarrow>
           (if leap y then month (setFullYear y dt) = 1 \<and> day (setFullYear y dt) = 29
            else month (setFullYear y dt) = 2 \<and> day (setFullYear y dt) = 1)"
  using assms month_cases [of "month dt"]
  by (auto simp: setFullYear_def valid_date_def daysInMonth_def split: if_splits)

lemma getTime_setFullYear:
  assumes "valid_date dt"
  shows "getTime (setFullYear y dt) = MakeDate (MakeDay y (month dt) (day dt)) (msInDay dt)"
  using assms month_cases [of "month dt"]
  by (auto simp: setFullYear_def valid_date_def daysInMonth_def getTime_def MakeDay_def
      monthStart_def split: if_splits)


lemma ceil5_bounds: "5 dvd ceil5 n * 5" "n \<le> ceil5 n * 5" "ceil5 n * 5 < n + 5"
  unfolding ceil5_def by presburger+

lemma dvd5_gap:
  fixes k n :: int
  assumes "5 dvd k" and "5 dvd n" and "k < n"
  shows "k + 5 \<le> n"
  using assms by presburger

lemma setFullYear_later:
  assumes "valid_date now" and "valid_date dt" and "year now < y"
  shows "getTime now < getTime (setFullYear y dt)"
  using year_less_getTime [OF assms(1) setFullYear_fields(3) [OF assms(2), of y]]
    setFullYear_fields(1) [OF assms(2), of y] assms(3)
  by simp

lemma setFullYear_earlier:
  assumes "valid_date now" and "valid_date dt" and "y < year now"
  shows "getTime (setFullYear y dt) < getTime now"
  using year_less_getTime [OF setFullYear_fields(3) [OF assms(2), of y] assms(1)]
    setFullYear_fields(1) [OF assms(2), of y] assms(3)
  by simp

lemma Day_mono: "getTime a \<le> getTime b \<Longrightarrow> Day a \<le> Day b"
  unfolding Day_def by (rule zdiv_mono1) (simp_all add: msPerDay_def)

lemmas date_eval =
  calculateNextAnniversary_def calculateNextMilestoneAnniversary_def ceil5_def
  setFullYear_def daysInMonth_def leap_def date_lt_def getTime_def MakeDate_def MakeDay_def
  DayFromYear_def monthStart_def msPerDay_def valid_date_def Day_def

section \<open>Facts about the calculator\<close>


lemma calculateNextMilestoneAnniversary_instant:
  assumes "valid_date now" and "valid_date rel"
  shows "5 dvd years (calculateNextMilestoneAnniversary now rel)
    \<and> \<not> date_lt (date (calculateNextMilestoneAnniversary now rel)) now
    \<and> \<not> date_lt (setFullYear (year rel
            + years (calculateNextMilestoneAnniversary now rel)) rel) now
    \<and> (\<forall>k. 5 dvd k \<and> k < years (calculateNextMilestoneAnniversary now rel) \<longrightarrow>
          date_lt (setFullYear (year rel + k) rel) now)
    \<and> (year rel < year now + 5 \<longrightarrow>
          0 \<le> years (calculateNextMilestoneAnniversary now rel))"
proof -
  define n where "n = ceil5 (year now - year rel) * 5"
  define ms where "ms = setFullYear (year rel + n) rel"
  have n: "5 dvd n" "year now - year rel \<le> n" "n < year now - year rel + 5"
    using ceil5_bounds [of "year now - year rel"] by (simp_all add: n_def)
  have ms: "valid_date ms" "year ms = year rel + n"
    using setFullYear_fields(1,3) [OF assms(2)] by (simp_all add: ms_def)
  have early: "date_lt (setFullYear (year rel + k) rel) now"
    if "5 dvd k" and "k < n" for k
  proof -
    have "k + 5 \<le> n" using dvd5_gap [OF that(1) n(1) that(2)] .
    then have "year rel + k < year now" using n(3) by simp
    then show ?thesis
      using setFullYear_earlier [OF assms] by (simp add: date_lt_def)
  qed
  have nonneg: "0 \<le> n" if "year rel < year now + 5"
  proof (rule ccontr)
    assume "\<not> 0 \<le> n"
    then have "n < 0" by simp
    then have "n + 5 \<le> 0" using dvd5_gap [OF n(1), of 0] by simp
    then show False using n(2) that by simp
  qed
  show ?thesis
  proof (cases "date_lt ms now")
    case True
    define r where "r = setFullYear (year rel + n + 5) ms"
    have res: "calculateNextMilestoneAnniversary now rel = \<lparr>date = r, years = n + 5\<rparr>"
      using True by (simp add: calculateNextMilestoneAnniversary_def Let_def n_def ms_def r_def)
    have r: "valid_date r" "year r = year rel + n + 5"
      using setFullYear_fields(1,3) [OF ms(1)] by (simp_all add: r_def)
    have a: "\<not> date_lt r now"
      using setFullYear_later [OF assms(1) ms(1), of "year rel + n + 5"] n(2)
      by (simp add: date_lt_def r_def)
    have b: "\<not> date_lt (setFullYear (year rel + (n + 5)) rel) now"
      using setFullYear_later [OF assms, of "year rel + (n + 5)"] n(2)
      by (simp add: date_lt_def)
    have c: "date_lt (setFullYear (year rel + k) rel) now"
      if "5 dvd k" and "k < n + 5" for k
    proof (cases "k = n")
      case True
      then show ?thesis using \<open>date_lt ms now\<close> by (simp add: ms_def)
    next
      case False
      have "5 dvd n + 5" using n(1) by simp
      then have "k + 5 \<le> n + 5" using dvd5_gap [OF that(1) _ that(2)] by simp
      then have "k < n" using False by simp
      then show ?thesis using early that(1) by simp
    qed
    show ?thesis
      unfolding res using n(1) a b c nonneg by simp
  next
    case False
    then have res: "calculateNextMilestoneAnniversary now rel = \<lparr>date = ms, years = n\<rparr>"
      by (simp add: calculateNextMilestoneAnniversary_def Let_def n_def ms_def)
    show ?thesis
      unfolding res using n(1) False early nonneg by (simp add: ms_def)
  qed
qed

section \<open>Facts about the batch loop\<close>

declare chunks.simps [simp del]

lemma chunks_Nil [simp]: "chunks b [] = []"
  by (simp add: chunks.simps)

lemma chunks_step: "0 < b \<Longrightarrow> xs \<noteq> [] \<Longrightarrow> chunks b xs = take b xs # chunks b (drop b xs)"
  by (subst chunks.simps) simp

lemma chunks_eq_Nil: "0 < b \<Longrightarrow> chunks b xs = [] \<longleftrightarrow> xs = []"
  by (cases "xs = []") (simp_all add: chunks_step)

lemma concat_chunks: "0 < b \<Longrightarrow> concat (chunks b xs) = xs"
proof (induction b xs rule: chunks.induct)
  case (1 b xs)
  show ?case
  proof (cases "xs = []")
    case True
    then show ?thesis by simp
  next
    case False
    then show ?thesis using 1 by (simp add: chunks_step)
  qed
qed

lemma chunks_bounds: "c \<in> set (chunks b xs) \<Longrightarrow> c \<noteq> [] \<and> length c \<le> b"
proof (induction b xs rule: chunks.induct)
  case (1 b xs)
  show ?case
  proof (cases "b = 0 \<or> xs = []")
    case True
    then show ?thesis using "1.prems" by (auto simp: chunks.simps)
  next
    case False
    then have "chunks b xs = take b xs # chunks b (drop b xs)"
      by (simp add: chunks_step)
    then show ?thesis using 1 False by auto
  qed
qed

lemma length_chunks: "0 < b \<Longrightarrow> length (chunks b xs) = (length xs + b - 1) div b"
proof (induction b xs rule: chunks.induct)
  case (1 b xs)
  show ?case
  proof (cases "xs = []")
    case True
    then show ?thesis using "1.prems" by simp
  next
    case False
    then have ih: "length (chunks b (drop b xs)) = (length xs - b + b - 1) div b"
      using 1 by simp
    show ?thesis
    proof (cases "b \<le> length xs")
      case True
      then have "length xs + b - 1 = (length xs - b + b - 1) + b"
        using "1.prems" by simp
      then have "(length xs + b - 1) div b = (length xs - b + b - 1) div b + 1"
        using "1.prems" by (simp only: div_add_self2)
      then show ?thesis using False "1.prems" ih by (simp add: chunks_step)
    next
      case False
      moreover have "0 < length xs" using \<open>xs \<noteq> []\<close> by simp
      ultimately have "length xs - b + b - 1 < b" "b \<le> length xs + b - 1"
        "length xs + b - 1 < 2 * b"
        using "1.prems" by arith+
      then have "(length xs - b + b - 1) div b = 0" "(length xs + b - 1) div b = 1"
        using "1.prems" by (simp_all add: div_nat_eqI)
      then show ?thesis using \<open>xs \<noteq> []\<close> "1.prems" ih by (simp add: chunks_step)
    qed
  qed
qed

section \<open>Facts about the interleaving\<close>

text \<open>Left alone, a resolution takes its four turns to the result of \<open>resolveMovie\<close>.\<close>

lemma four_start:
  "four env st (start el) =
     (Settled (fst (resolveMovie env st el)), fst (snd (resolveMovie env st el)),
      snd (snd (resolveMovie env st el)))"
  by (auto simp: four_def start_def resolveMovie_def fetchFresh_def Let_def
      split: option.splits fetch_outcome.splits)

lemma interleave4:
  "i < length ps \<Longrightarrow>
   interleave (i # i # i # i # sched) batch ps st evs =
     (case four (snd (batch ! i)) st (ps ! i) of
        (p, st', ev) \<Rightarrow> interleave sched batch (ps[i := p]) st' (evs @ ev))"
  by (simp add: four_def split: prod.splits)

lemma length_interleave:
  "length (fst (interleave sched batch ps st evs)) = length ps"
  by (induction sched batch ps st evs rule: interleave.induct) (auto split: prod.splits)

lemma resume_events: "e \<in> set (snd (snd (resume env st p))) \<Longrightarrow> item_event e"
  by (cases p) (auto simp: item_event_def split: option.splits fetch_outcome.splits if_splits)

lemma interleave_events:
  "\<exists>ev. snd (snd (interleave sched batch ps st evs)) = evs @ ev \<and> (\<forall>e\<in>set ev. item_event e)"
proof (induction sched batch ps st evs rule: interleave.induct)
  case (1 batch ps st evs)
  then show ?case by simp
next
  case (2 i sched batch ps st evs)
  show ?case
  proof (cases "i < length ps")
    case False
    then show ?thesis using 2 by simp
  next
    case True
    obtain p st' ev where r: "resume (snd (batch ! i)) st (ps ! i) = (p, st', ev)"
      by (cases "resume (snd (batch ! i)) st (ps ! i)") auto
    from 2(1) [OF True r [symmetric] refl] obtain ev' where
      e: "snd (snd (interleave sched batch (ps[i := p]) st' (evs @ ev))) = (evs @ ev) @ ev'"
        "\<forall>e\<in>set ev'. item_event e" by blast
    have "\<forall>e\<in>set ev. item_event e"
      using resume_events [of _ "snd (batch ! i)" st "ps ! i"] r by simp
    with e show ?thesis using True r by auto
  qed
qed

text \<open>
  The resolutions depend on the batch only through what the world answers to each of
  them.
\<close>

lemma interleave_cong:
  "\<forall>i < length ps. \<forall>s p. resume (snd (batch' ! i)) s p = resume (snd (batch ! i)) s p \<Longrightarrow>
   interleave sched batch' ps st evs = interleave sched batch ps st evs"
proof (induction sched batch ps st evs rule: interleave.induct)
  case (1 batch ps st evs)
  then show ?case by simp
next
  case (2 i sched batch ps st evs)
  show ?case
  proof (cases "i < length ps")
    case False
    then show ?thesis using 2 by simp
  next
    case True
    obtain p st' ev where r: "resume (snd (batch ! i)) st (ps ! i) = (p, st', ev)"
      by (cases "resume (snd (batch ! i)) st (ps ! i)") auto
    have r': "resume (snd (batch' ! i)) st (ps ! i) = (p, st', ev)"
      using 2(3) True r by simp
    have "interleave sched batch' (ps[i := p]) st' (evs @ ev)
        = interleave sched batch (ps[i := p]) st' (evs @ ev)"
      using 2(1) [OF True r [symmetric] refl] 2(3) by simp
    then show ?thesis using True r r' by simp
  qed
qed

text \<open>Every turn brings a resolution nearer to its end, and four turns settle it.\<close>

lemma rank_resume: "rank (fst (resume env st p)) \<le> rank p - 1"
  by (cases p) (auto split: option.splits fetch_outcome.splits)

lemma rank0: "rank p = 0 \<Longrightarrow> p = Settled (outcome p)"
  by (cases p) auto

lemma rank_start: "rank (start el) \<le> 4"
  by (simp add: start_def split: option.splits)

lemma interleave_rank:
  "\<forall>i < length ps. rank (ps ! i) \<le> count_list sched i \<Longrightarrow>
   \<forall>i < length ps. rank (fst (interleave sched batch ps st evs) ! i) = 0"
proof (induction sched batch ps st evs rule: interleave.induct)
  case (1 batch ps st evs)
  then show ?case by simp
next
  case (2 i sched batch ps st evs)
  show ?case
  proof (cases "i < length ps")
    case False
    with 2(3) have "\<forall>j < length ps. rank (ps ! j) \<le> count_list sched j" by auto
    from 2(2) [OF False this] False show ?thesis by simp
  next
    case True
    obtain p st' ev where r: "resume (snd (batch ! i)) st (ps ! i) = (p, st', ev)"
      by (cases "resume (snd (batch ! i)) st (ps ! i)") auto
    have rp: "rank p \<le> rank (ps ! i) - 1"
      using rank_resume [of "snd (batch ! i)" st "ps ! i"] r by simp
    have "\<forall>j < length (ps[i := p]). rank (ps[i := p] ! j) \<le> count_list sched j"
    proof (intro allI impI)
      fix j assume j: "j < length (ps[i := p])"
      show "rank (ps[i := p] ! j) \<le> count_list sched j"
      proof (cases "j = i")
        case True
        from 2(3) \<open>i < length ps\<close> have "rank (ps ! i) \<le> Suc (count_list sched i)" by auto
        with rp True j show ?thesis by simp
      next
        case False
        with 2(3) j show ?thesis by auto
      qed
    qed
    from 2(1) [OF True r [symmetric] refl this] True r show ?thesis by simp
  qed
qed

text \<open>The schedule gives every entry of the batch its four turns.\<close>

lemma count_list_replicate: "count_list (replicate k x) y = (if x = y then k else 0)"
  by (induction k) auto

lemma count_list_turns: "count_list (turns n) i = (if i < n then 4 else 0)"
  by (induction n) (auto simp: turns_def count_list_append count_list_replicate less_Suc_eq)

lemma map_snd_stamped:
  "map snd (concat (map (\<lambda>i. map (\<lambda>k. (f i k, i)) [0..<4]) is)) = concat (map (replicate 4) is)"
  by (induction "is") (simp_all add: map_replicate_const comp_def)

lemma mset_schedule: "mset (schedule batch) = mset (turns (length batch))"
proof -
  have "mset (schedule batch) = image_mset snd (mset (concat
      (map (\<lambda>i. map (\<lambda>k. (awaits (snd (batch ! i)) k, i)) [0..<4]) [0..<length batch])))"
    unfolding schedule_def by simp
  also have "\<dots> = mset (map snd (concat
      (map (\<lambda>i. map (\<lambda>k. (awaits (snd (batch ! i)) k, i)) [0..<4]) [0..<length batch])))"
    by simp
  finally show ?thesis by (simp only: map_snd_stamped turns_def)
qed

lemma count_list_schedule:
  "count_list (schedule batch) i = (if i < length batch then 4 else 0)"
proof -
  have "count_list (schedule batch) i = count (mset (schedule batch)) i"
    by (simp add: count_mset)
  then show ?thesis by (simp add: mset_schedule count_mset count_list_turns)
qed

lemma schedule_Nil [simp]: "schedule [] = []"
  by (simp add: schedule_def)

lemma sort_key_same:
  "\<forall>x \<in> set xs. f x = c \<Longrightarrow> sort_key f xs = xs"
proof (induction xs)
  case Nil
  then show ?case by simp
next
  case (Cons x xs)
  then have "sort_key f xs = xs" by simp
  moreover have "insort_key f x xs = x # xs"
    using Cons.prems by (intro insort_is_Cons) simp
  ultimately show ?case by simp
qed

lemma schedule_same:
  assumes "\<forall>x \<in> set batch. \<forall>k. awaits (snd x) k = c"
  shows "schedule batch = turns (length batch)"
proof -
  let ?L = "concat (map (\<lambda>i. map (\<lambda>k. (awaits (snd (batch ! i)) k, i)) [0..<4])
      [0..<length batch])"
  have "\<forall>x \<in> set ?L. fst x = c" using assms by auto
  then have "sort_key fst ?L = ?L" by (rule sort_key_same)
  then show ?thesis unfolding schedule_def turns_def by (simp only: map_snd_stamped)
qed

lemma schedule_cong:
  assumes "length c' = length c"
    and "\<forall>i < length c. awaits (snd (c' ! i)) = awaits (snd (c ! i))"
  shows "schedule c' = schedule c"
proof -
  have "map (\<lambda>i. map (\<lambda>k. (awaits (snd (c' ! i)) k, i)) [0..<4]) [0..<length c]
      = map (\<lambda>i. map (\<lambda>k. (awaits (snd (c ! i)) k, i)) [0..<4]) [0..<length c]"
    by (rule map_cong) (simp_all add: assms(2))
  then show ?thesis unfolding schedule_def assms(1) by (simp only:)
qed

lemma interleave_turns:
  assumes "k \<le> length batch" and "length ps = length batch"
    and "\<forall>j. k \<le> j \<and> j < length batch \<longrightarrow> ps ! j = start (fst (batch ! j))"
  shows "interleave (concat (map (replicate 4) [k..<length batch])) batch ps st evs =
     (take k ps @ map Settled (fst (resolveInTurn st (drop k batch))),
      fst (snd (resolveInTurn st (drop k batch))),
      evs @ snd (snd (resolveInTurn st (drop k batch))))"
  using assms
proof (induction "length batch - k" arbitrary: k ps st evs)
  case 0
  then show ?case by simp
next
  case (Suc m)
  then have k: "k < length batch" by simp
  obtain r st1 ev where rm: "resolveMovie (snd (batch ! k)) st (fst (batch ! k)) = (r, st1, ev)"
    by (cases "resolveMovie (snd (batch ! k)) st (fst (batch ! k))") auto
  have f: "four (snd (batch ! k)) st (ps ! k) = (Settled r, st1, ev)"
    using Suc.prems(3) k rm by (simp add: four_start)
  have u: "concat (map (replicate 4) [k..<length batch])
      = k # k # k # k # concat (map (replicate 4) [Suc k..<length batch])"
    using k by (simp add: upt_conv_Cons eval_nat_numeral)
  have d: "drop k batch = batch ! k # drop (Suc k) batch"
    using k by (simp add: Cons_nth_drop_Suc)
  have t: "take (Suc k) (ps[k := Settled r]) = take k ps @ [Settled r]"
    using k Suc.prems(2) by (simp add: take_Suc_conv_app_nth)
  have ih: "interleave (concat (map (replicate 4) [Suc k..<length batch])) batch
      (ps[k := Settled r]) st1 (evs @ ev) =
     (take (Suc k) (ps[k := Settled r])
        @ map Settled (fst (resolveInTurn st1 (drop (Suc k) batch))),
      fst (snd (resolveInTurn st1 (drop (Suc k) batch))),
      (evs @ ev) @ snd (snd (resolveInTurn st1 (drop (Suc k) batch))))"
    using Suc.hyps(2) Suc.prems k by (intro Suc.hyps(1)) auto
  have "interleave (concat (map (replicate 4) [k..<length batch])) batch ps st evs
      = interleave (concat (map (replicate 4) [Suc k..<length batch])) batch
          (ps[k := Settled r]) st1 (evs @ ev)"
    unfolding u using k Suc.prems(2) by (simp only: interleave4 f) simp
  then show ?case
    unfolding ih t d by (simp add: rm split: prod.splits)
qed

text \<open>
  When all operations of a batch complete at one and the same instant, its resolutions
  run one after the other.
\<close>

lemma resolveBatch_in_turn:
  assumes "\<forall>x \<in> set batch. \<forall>k. awaits (snd x) k = c"
  shows "resolveBatch st batch = resolveInTurn st batch"
proof -
  have "interleave (concat (map (replicate 4) [0..<length batch])) batch
      (map (\<lambda>x. start (fst x)) batch) st [] =
     (take 0 (map (\<lambda>x. start (fst x)) batch) @ map Settled (fst (resolveInTurn st (drop 0 batch))),
      fst (snd (resolveInTurn st (drop 0 batch))),
      [] @ snd (snd (resolveInTurn st (drop 0 batch))))"
    by (rule interleave_turns) simp_all
  then show ?thesis
    unfolding resolveBatch_def schedule_same [OF assms] turns_def
    by (simp add: comp_def)
qed

lemma resolveBatch_Nil [simp]: "resolveBatch st [] = ([], st, [])"
  by (simp add: resolveBatch_def)

lemma length_resolveBatch [simp]: "length (fst (resolveBatch st xs)) = length xs"
  using length_interleave [of "schedule xs" xs "map (\<lambda>x. start (fst x)) xs" st "[]"]
  by (auto simp: resolveBatch_def split: prod.splits)

lemma resolveBatch_events:
  "resolveBatch st xs = (rs, st', evs) \<Longrightarrow> e \<in> set evs \<Longrightarrow> item_event e"
  using interleave_events [of "schedule xs" xs "map (\<lambda>x. start (fst x)) xs" st "[]"]
  by (auto simp: resolveBatch_def split: prod.splits)

text \<open>When the schedule of a batch is through, every promise of the batch has settled.\<close>

lemma resolveBatch_settled:
  assumes "interleave (schedule batch) batch (map (\<lambda>x. start (fst x)) batch) st [] = (ps, st', evs)"
    and "i < length batch"
  shows "ps ! i = Settled (fst (resolveBatch st batch) ! i)"
proof -
  have "\<forall>i < length (map (\<lambda>x. start (fst x)) batch).
      rank (map (\<lambda>x. start (fst x)) batch ! i) \<le> count_list (schedule batch) i"
    by (simp add: count_list_schedule rank_start)
  then have "\<forall>i < length (map (\<lambda>x. start (fst x)) batch).
      rank (fst (interleave (schedule batch) batch (map (\<lambda>x. start (fst x)) batch) st []) ! i) = 0"
    by (rule interleave_rank)
  then have "rank (ps ! i) = 0" using assms by simp
  then have "ps ! i = Settled (outcome (ps ! i))" by (rule rank0)
  moreover have "length ps = length batch"
    using length_interleave [of "schedule batch" batch "map (\<lambda>x. start (fst x)) batch" st "[]"]
      assms(1) by simp
  ultimately show ?thesis using assms by (simp add: resolveBatch_def)
qed

text \<open>The instant at which a resolution settles is no input of its result.\<close>

lemma resume_settles: "resume (env\<lparr>settles := k\<rparr>) st p = resume env st p"
  by (cases p) (simp_all split: option.splits fetch_outcome.splits)

lemma resolveBatch_settles:
  "resolveBatch st (map (\<lambda>x. (fst x, (snd x)\<lparr>settles := f x\<rparr>)) c) = resolveBatch st c"
proof -
  let ?c = "map (\<lambda>x. (fst x, (snd x)\<lparr>settles := f x\<rparr>)) c"
  have s: "schedule ?c = schedule c"
    by (rule schedule_cong) simp_all
  have m: "map (\<lambda>x. start (fst x)) ?c = map (\<lambda>x. start (fst x)) c"
    by simp
  have "interleave (schedule c) ?c (map (\<lambda>x. start (fst x)) c) st []
      = interleave (schedule c) c (map (\<lambda>x. start (fst x)) c) st []"
    by (rule interleave_cong) (simp add: resume_settles)
  then show ?thesis unfolding resolveBatch_def s m by simp
qed

text \<open>
  The same for the results and the storage, and across the batches of a run.
\<close>

lemma results_Nil [simp]: "results st [] = []"
  by (simp add: results_def)

lemma cache_after_Nil [simp]: "cache_after st [] = st"
  by (simp add: cache_after_def)

lemma length_results [simp]: "length (results st xs) = length xs"
  by (simp add: results_def)

lemma successes_append [simp]: "successes (xs @ ys) = successes xs @ successes ys"
  by (simp add: successes_def)

lemma successes_simps [simp]:
  "successes [] = []"
  "successes (None # rs) = successes rs"
  "successes (Some r # rs) = r # successes rs"
  by (simp_all add: successes_def)

lemma batches_of_append [simp]: "batches_of (xs @ ys) = batches_of xs @ batches_of ys"
  by (induction xs rule: batches_of.induct) simp_all

lemma progress_of_append [simp]: "progress_of (xs @ ys) = progress_of xs @ progress_of ys"
  by (induction xs rule: progress_of.induct) simp_all

text \<open>Resolving entries reports no progress, starts no batch and sets no timer.\<close>

lemma item_event_simps [simp]:
  "item_event StorageGet" "item_event StorageSet" "item_event (Fetch u)"
  "item_event (ConsoleError t)" "\<not> item_event (BatchStart b)"
  "\<not> item_event (Progress p n)" "\<not> item_event (Delay d)"
  by (simp_all add: item_event_def)

lemma fetchFresh_events:
  "fetchFresh env st u t = (r, st', evs) \<Longrightarrow> e \<in> set evs \<Longrightarrow> item_event e"
  by (auto simp: fetchFresh_def Let_def split: fetch_outcome.splits option.splits if_splits)

lemma resolveMovie_events:
  "resolveMovie env st el = (r, st', evs) \<Longrightarrow> e \<in> set evs \<Longrightarrow> item_event e"
  by (auto simp: resolveMovie_def split: option.splits if_splits prod.splits
      dest: fetchFresh_events)

lemma delays_of_append [simp]: "delays_of (xs @ ys) = delays_of xs @ delays_of ys"
  by (induction xs rule: delays_of.induct) simp_all

lemma item_events_quiet:
  "\<forall>e \<in> set es. item_event e \<Longrightarrow>
     batches_of es = [] \<and> progress_of es = [] \<and> delays_of es = []"
  by (induction es rule: batches_of.induct) simp_all

lemma resolveBatch_quiet [simp]:
  "batches_of (snd (snd (resolveBatch st xs))) = []"
  "progress_of (snd (snd (resolveBatch st xs))) = []"
  "delays_of (snd (snd (resolveBatch st xs))) = []"
proof -
  have "\<forall>e \<in> set (snd (snd (resolveBatch st xs))). item_event e"
    using resolveBatch_events [of st xs] by (cases "resolveBatch st xs") auto
  then show "batches_of (snd (snd (resolveBatch st xs))) = []"
    and "progress_of (snd (snd (resolveBatch st xs))) = []"
    and "delays_of (snd (snd (resolveBatch st xs))) = []"
    using item_events_quiet by blast+
qed

lemma length_fill [simp]: "length (fill vs ord slots) = length slots"
  by (induction ord arbitrary: slots) simp_all

lemma nth_fill:
  "j < length slots \<Longrightarrow>
     fill vs ord slots ! j = (if j \<in> set ord then Some (vs ! j) else slots ! j)"
proof (induction ord arbitrary: slots)
  case Nil
  then show ?case by simp
next
  case (Cons i ord)
  then show ?case by (cases "j = i") simp_all
qed

lemma promiseAll_positional:
  assumes "set ord = {..<length vs}"
  shows "promiseAll ord vs = Some vs"
proof -
  define slots where "slots = fill vs ord (replicate (length vs) None)"
  have len: "length slots = length vs" by (simp add: slots_def)
  have nth: "slots ! j = Some (vs ! j)" if "j < length vs" for j
    using that assms by (simp add: slots_def nth_fill)
  have "slots = map Some vs"
    by (rule nth_equalityI) (simp_all add: len nth)
  then have "list_all (\<lambda>x. x \<noteq> None) slots" and "map the slots = vs"
    by (simp_all add: list_all_iff comp_def)
  then show ?thesis
    unfolding promiseAll_def slots_def [symmetric] by (simp add: Let_def)
qed

lemma set_completion_order: "set (completion_order batch) = {..<length batch}"
  by (auto simp: completion_order_def)

lemma batch_step_done: "batch_step d n c again s = Some (batch_done d n c again s)"
proof -
  obtain rs st' evs where r: "resolveBatch (cache s) c = (rs, st', evs)"
    by (cases "resolveBatch (cache s) c") auto
  have "length rs = length c" using length_resolveBatch [of "cache s" c] r by simp
  then have "promiseAll (completion_order c) rs = Some rs"
    by (simp add: promiseAll_positional set_completion_order)
  then show ?thesis by (simp add: batch_step_def batch_done_def r)
qed

lemma batch_step_fields:
  "processedMovies (batch_done d n c again s) = processedMovies s + length c"
  "movies (batch_done d n c again s) = movies s @ successes (results (cache s) c)"
  "cache (batch_done d n c again s) = cache_after (cache s) c"
  "trace (batch_done d n c again s) =
     trace s @ BatchStart (map fst c) # snd (snd (resolveBatch (cache s) c))
       @ Progress (processedMovies s + length c) n # (if again then [Delay d] else [])"
  by (simp_all add: batch_done_def after_batch_def results_def cache_after_def case_prod_beta)

lemma process_chunks_processed:
  "processedMovies (process_chunks d n cs s) = processedMovies s + length (concat cs)"
  by (induction cs arbitrary: s) (simp_all add: batch_step_fields)

lemma process_chunks_movies:
  "movies (process_chunks d n cs s) = movies s @ successes (chunk_results (cache s) cs)"
  by (induction cs arbitrary: s) (simp_all add: batch_step_fields)

lemma process_chunks_cache:
  "cache (process_chunks d n cs s) = chunk_cache (cache s) cs"
  by (induction cs arbitrary: s) (simp_all add: batch_step_fields)

lemma process_chunks_trace:
  "trace (process_chunks d n cs s) =
     trace s @ schedule_trace d n (processedMovies s) (cache s) cs"
proof (induction cs arbitrary: s)
  case Nil
  show ?case by simp
next
  case (Cons c cs)
  show ?case
    by (simp add: Cons.IH batch_step_fields)
qed

lemmas process_chunks_fields =
  process_chunks_processed process_chunks_movies process_chunks_cache process_chunks_trace

lemma batch_loop_chunks:
  assumes "0 < b"
  shows "batch_loop b d arr i s = Some (process_chunks d (length arr) (chunks b (drop i arr)) s)"
proof (induction "length arr - i" arbitrary: i s rule: less_induct)
  case less
  show ?case
  proof (cases "i < length arr")
    case False
    then show ?thesis by (subst batch_loop.simps) simp
  next
    case True
    then have ne: "drop i arr \<noteq> []" by simp
    have "length arr - (i + b) < length arr - i" using True assms by simp
    then have ih: "batch_loop b d arr (i + b) t =
        Some (process_chunks d (length arr) (chunks b (drop (i + b) arr)) t)" for t
      using less by blast
    have d: "drop b (drop i arr) = drop (i + b) arr" by (simp add: add.commute)
    have c: "chunks b (drop i arr) = slice i (i + b) arr # chunks b (drop (i + b) arr)"
      using chunks_step [OF assms ne] unfolding d by (simp add: slice_def)
    have m: "chunks b (drop (i + b) arr) \<noteq> [] \<longleftrightarrow> i + b < length arr"
      by (simp add: chunks_eq_Nil [OF assms] not_le)
    show ?thesis
      by (subst batch_loop.simps) (simp add: True ih c m batch_step_done)
  qed
qed

lemma schedule_trace_reads:
  "batches_of (schedule_trace d n p st cs) = map (map fst) cs"
  "progress_of (schedule_trace d n p st cs) = running p cs"
  "delays_of (schedule_trace d n p st cs) = replicate (length cs - 1) d"
proof (induction cs arbitrary: p st)
  case Nil
  {
    case 1 show ?case by simp
  next
    case 2 show ?case by simp
  next
    case 3 show ?case by simp
  }
next
  case (Cons c cs)
  {
    case 1 show ?case by (simp add: Cons.IH(1))
  next
    case 2 show ?case by (simp add: Cons.IH(2))
  next
    case 3
    show ?case
    proof (cases "cs = []")
      case True
      then show ?thesis by simp
    next
      case False
      then have l: "replicate (length cs) d = d # replicate (length cs - 1) d"
        by (cases cs) simp_all
      show ?thesis using False by (simp add: Cons.IH(3) l)
    qed
  }
qed

lemma last_schedule_trace:
  "cs \<noteq> [] \<Longrightarrow>
     last (schedule_trace d n p st cs) = Progress (p + length (concat cs)) n"
proof (induction cs arbitrary: p st)
  case Nil
  then show ?case by simp
next
  case (Cons c cs)
  show ?case
  proof (cases "cs = []")
    case True
    then show ?thesis by simp
  next
    case False
    have "schedule_trace d n (p + length c) (cache_after st c) cs \<noteq> []"
      using False by (cases cs) simp_all
    then show ?thesis using Cons.IH [OF False] False by (simp add: add.assoc)
  qed
qed

lemma length_running [simp]: "length (running p cs) = length cs"
  by (induction cs arbitrary: p) simp_all

lemma running_greater:
  "\<forall>c \<in> set cs. c \<noteq> [] \<Longrightarrow> q \<in> set (running p cs) \<Longrightarrow> p < q"
proof (induction cs arbitrary: p)
  case Nil
  then show ?case by simp
next
  case (Cons c cs)
  have pos: "0 < length c" using Cons.prems(1) by simp
  have rest: "\<forall>c \<in> set cs. c \<noteq> []" using Cons.prems(1) by simp
  from Cons.prems(2) consider "q = p + length c" | "q \<in> set (running (p + length c) cs)"
    by auto
  then show ?case
  proof cases
    case 1
    then show ?thesis using pos by simp
  next
    case 2
    then have "p + length c < q" using Cons.IH [OF rest] by simp
    then show ?thesis by simp
  qed
qed

lemma running_increasing:
  "\<forall>c \<in> set cs. c \<noteq> [] \<Longrightarrow> sorted_wrt (<) (running p cs)"
proof (induction cs arbitrary: p)
  case Nil
  then show ?case by simp
next
  case (Cons c cs)
  have rest: "\<forall>c \<in> set cs. c \<noteq> []" using Cons.prems by simp
  have "\<forall>q \<in> set (running (p + length c) cs). p + length c < q"
    using running_greater [OF rest] by blast
  then show ?case using Cons.IH [OF rest] by simp
qed

lemma running_Nil_iff [simp]: "running p cs = [] \<longleftrightarrow> cs = []"
  by (cases cs) simp_all

lemma last_running:
  "cs \<noteq> [] \<Longrightarrow> last (running p cs) = p + length (concat cs)"
proof (induction cs arbitrary: p)
  case Nil
  then show ?case by simp
next
  case (Cons c cs)
  show ?case
  proof (cases "cs = []")
    case True
    then show ?thesis by simp
  next
    case False
    then show ?thesis using Cons.IH [OF False] by simp
  qed
qed

lemma insert_by_key:
  "insert_by (\<lambda>a b. f a - f b) x ys = insort_key f x ys"
  by (induction ys) simp_all

lemma insert_by_key_fun: "insert_by (\<lambda>a b. f a - f b) = insort_key f"
  by (intro ext) (rule insert_by_key)

lemma array_sort_compareAnniversary:
  "array_sort compareAnniversary xs = sort_key (\<lambda>m. getTime (nextAnniversary m)) xs"
proof -
  have ca: "compareAnniversary =
      (\<lambda>a b. getTime (nextAnniversary a) - getTime (nextAnniversary b))"
    by (simp add: compareAnniversary_def fun_eq_iff)
  show ?thesis
    unfolding array_sort_def sort_key_def ca insert_by_key_fun ..
qed

text \<open>The whole run, for a batch size that is not 0.\<close>

lemma showAnniversaries_eq:
  assumes "0 < b"
  shows "showAnniversaries b d arr st =
    Some \<lparr>processedMovies = length arr,
          movies = array_sort compareAnniversary (successes (run_results b st arr)),
          cache = run_cache b st arr,
          trace = schedule_trace d (length arr) 0 st (chunks b arr)\<rparr>"
  by (simp add: showAnniversaries_def batch_loop_chunks [OF assms] process_chunks_fields
      concat_chunks [OF assms] run_results_def run_cache_def)

section \<open>Facts about the results\<close>

lemma map_Some_successes: "map Some (successes rs) = filter (\<lambda>r. r \<noteq> None) rs"
  by (induction rs) (auto simp: successes_def)

lemma map_sort_key: "map f (sort_key f xs) = sort (map f xs)"
  by (rule properties_for_sort [symmetric]) simp_all

lemma sort_cong_mset: "mset xs = mset ys \<Longrightarrow> sort xs = sort ys"
  by (rule properties_for_sort) simp_all

lemma fetchFresh_None_storage:
  "fetchFresh env st u t = (None, st', evs) \<Longrightarrow> st' = st"
  by (auto simp: fetchFresh_def Let_def split: fetch_outcome.splits option.splits if_splits)

lemma resolveMovie_None_storage:
  "fst (resolveMovie env st el) = None \<Longrightarrow> fst (snd (resolveMovie env st el)) = st"
  by (auto simp: resolveMovie_def split: option.splits if_splits prod.splits
      dest: fetchFresh_None_storage)

lemma fetchFresh_fetches: "Fetch u \<in> set (snd (snd (fetchFresh env st u t)))"
  by (auto simp: fetchFresh_def Let_def split: fetch_outcome.splits option.splits)

lemma resolveMovie_hit:
  assumes "link el = Some u" and "img_alt el = Some t" and "t \<noteq> []" and "get1_ok env"
    and "lookup st u = Some e" and "now1 env - lastFetched e < CACHE_EXPIRY"
  shows "resolveMovie env st el =
    (Some \<lparr>title = t, releaseDate = dateOfISO (cachedReleaseDate e),
            nextAnniversary = dateOfISO (cachedNextAnniversary e), url = u\<rparr>,
     st, [StorageGet])"
  using assms by (simp add: resolveMovie_def)

lemma resolveMovie_miss:
  assumes "link el = Some u" and "img_alt el = Some t" and "t \<noteq> []" and "get1_ok env"
    and "\<forall>e. lookup st u = Some e \<longrightarrow> \<not> now1 env - lastFetched e < CACHE_EXPIRY"
  shows "resolveMovie env st el =
    (fst (fetchFresh env st u t), fst (snd (fetchFresh env st u t)),
     StorageGet # snd (snd (fetchFresh env st u t)))"
  using assms by (auto simp: resolveMovie_def split: option.splits prod.splits)

text \<open>
  The failures of the fetch path: a rejected request, a page without the date element, an
  empty date text and a text that is no date each end the path with \<open>null\<close>.
\<close>

lemma fetchFresh_failures:
  assumes "response env = FetchRejected \<or> response env = Page None
    \<or> response env = Page (Some []) \<or> (\<exists>txt. response env = Page (Some txt)
          \<and> parseDate env txt = None)"
  shows "fst (fetchFresh env st u t) = None"
  using assms by (auto simp: fetchFresh_def)

text \<open>The batches of a list, entry by entry.\<close>

lemma chunks_map: "chunks b (map f xs) = map (map f) (chunks b xs)"
proof (induction b xs rule: chunks.induct)
  case (1 b xs)
  show ?case
  proof (cases "b = 0 \<or> xs = []")
    case True
    then show ?thesis by (auto simp: chunks.simps)
  next
    case False
    then have "chunks b xs = take b xs # chunks b (drop b xs)"
      and "chunks b (map f xs) = take b (map f xs) # chunks b (drop b (map f xs))"
      by (simp_all add: chunks_step)
    then show ?thesis using 1 False by (simp add: take_map drop_map)
  qed
qed

lemma chunks_all2:
  "list_all2 P xs ys \<Longrightarrow> list_all2 (list_all2 P) (chunks b xs) (chunks b ys)"
proof (induction b xs arbitrary: ys rule: chunks.induct)
  case (1 b xs)
  have len: "length xs = length ys" using "1.prems" by (rule list_all2_lengthD)
  show ?case
  proof (cases "b = 0 \<or> xs = []")
    case True
    then show ?thesis using len by (auto simp: chunks.simps)
  next
    case False
    then have ne: "ys \<noteq> []" using len by auto
    have x: "chunks b xs = take b xs # chunks b (drop b xs)"
      and y: "chunks b ys = take b ys # chunks b (drop b ys)"
      using False ne by (simp_all add: chunks_step)
    have "list_all2 (list_all2 P) (chunks b (drop b xs)) (chunks b (drop b ys))"
      using False "1.prems" by (intro "1.IH") (simp_all add: list_all2_dropI)
    then show ?thesis
      unfolding x y using "1.prems" by (simp add: list_all2_takeI)
  qed
qed

text \<open>The instant at which a resolution settles is no input of the results of a run.\<close>

lemma chunk_results_settles:
  "chunk_results st (map (map (\<lambda>x. (fst x, (snd x)\<lparr>settles := f x\<rparr>))) cs) = chunk_results st cs"
  by (induction cs arbitrary: st)
    (simp_all add: results_def cache_after_def resolveBatch_settles)

lemma run_results_settles:
  "run_results b st (map (\<lambda>x. (fst x, (snd x)\<lparr>settles := f x\<rparr>)) arr) = run_results b st arr"
  by (simp add: run_results_def chunks_map chunk_results_settles)

text \<open>
  A run whose operations all complete at one and the same instant resolves its entries
  one after the other.
\<close>

lemma resolveInTurn_append:
  "resolveInTurn st (xs @ ys) =
     (fst (resolveInTurn st xs) @ fst (resolveInTurn (fst (snd (resolveInTurn st xs))) ys),
      fst (snd (resolveInTurn (fst (snd (resolveInTurn st xs))) ys)),
      snd (snd (resolveInTurn st xs))
        @ snd (snd (resolveInTurn (fst (snd (resolveInTurn st xs))) ys)))"
  by (induction xs arbitrary: st) (auto split: prod.splits)

lemma resolveInTurn_Cons:
  "fst (resolveInTurn st (x # xs)) =
     fst (resolveMovie (snd x) st (fst x))
       # fst (resolveInTurn (fst (snd (resolveMovie (snd x) st (fst x)))) xs)"
  "fst (snd (resolveInTurn st (x # xs))) =
     fst (snd (resolveInTurn (fst (snd (resolveMovie (snd x) st (fst x)))) xs))"
  "snd (snd (resolveInTurn st (x # xs))) =
     snd (snd (resolveMovie (snd x) st (fst x)))
       @ snd (snd (resolveInTurn (fst (snd (resolveMovie (snd x) st (fst x)))) xs))"
  by (simp_all split: prod.splits)

lemma chunk_results_in_turn:
  assumes "\<forall>ch \<in> set cs. \<forall>x \<in> set ch. \<forall>k. awaits (snd x) k = c"
  shows "chunk_results st cs = fst (resolveInTurn st (concat cs))
    \<and> chunk_cache st cs = fst (snd (resolveInTurn st (concat cs)))"
  using assms
proof (induction cs arbitrary: st)
  case Nil
  then show ?case by simp
next
  case (Cons ch cs)
  have a: "resolveBatch st ch = resolveInTurn st ch"
    using Cons.prems by (intro resolveBatch_in_turn [where c = c]) simp
  have b: "chunk_results s cs = fst (resolveInTurn s (concat cs))
      \<and> chunk_cache s cs = fst (snd (resolveInTurn s (concat cs)))" for s
    using Cons.prems by (intro Cons.IH) simp
  show ?case
    by (simp add: results_def cache_after_def a b resolveInTurn_append)
qed

lemma run_in_turn:
  assumes "0 < b" and "\<forall>x \<in> set arr. \<forall>k. awaits (snd x) k = c"
  shows "run_results b st arr = fst (resolveInTurn st arr)"
    and "run_cache b st arr = fst (snd (resolveInTurn st arr))"
proof -
  have "set (concat (chunks b arr)) = set arr"
    by (simp only: concat_chunks [OF assms(1)])
  then have "\<forall>ch \<in> set (chunks b arr). \<forall>x \<in> set ch. \<forall>k. awaits (snd x) k = c"
    using assms(2) by auto
  then have "chunk_results st (chunks b arr) = fst (resolveInTurn st (concat (chunks b arr)))
    \<and> chunk_cache st (chunks b arr) = fst (snd (resolveInTurn st (concat (chunks b arr))))"
    by (rule chunk_results_in_turn)
  then show "run_results b st arr = fst (resolveInTurn st arr)"
    and "run_cache b st arr = fst (snd (resolveInTurn st arr))"
    by (simp_all add: run_results_def run_cache_def concat_chunks [OF assms(1)])
qed

text \<open>
  An entry that can only fail, beside a poster without a link in its place: the other
  resolutions take the same turns to the same results and leave the same storage, in
  every interleaving.
\<close>

lemma lookup_existing: "(case st of None \<Rightarrow> Map.empty | Some doc \<Rightarrow> doc) u = lookup st u"
  by (simp add: lookup_def split: option.splits)

lemma resume_avoids:
  assumes "avoids u e0 p" and "lookup st u = e0"
  shows "avoids u e0 (fst (resume env st p))"
    and "lookup (fst (snd (resume env st p))) u = e0"
  using assms
  by (cases p; auto simp: lookup_existing lookup_def [of "Some _"]
      split: option.splits fetch_outcome.splits)+

lemma resume_doomed:
  assumes "doomed u p" and "fetch_fails env" and "no_valid_entry e0 env" and "lookup st u = e0"
  shows "doomed u (fst (resume env st p))" and "fst (snd (resume env st p)) = st"
  using assms
  by (cases p; auto simp: fetch_fails_def no_valid_entry_def split: option.splits)+

lemma outcome_paired:
  assumes "paired u e0 batch ps ps'"
  shows "map outcome ps' = map outcome ps"
    and "\<forall>m. Some m \<in> set (map outcome ps) \<longrightarrow> url m \<noteq> u"
proof -
  have a: "outcome (ps' ! j) = outcome (ps ! j)
      \<and> (\<forall>m. outcome (ps ! j) = Some m \<longrightarrow> url m \<noteq> u)" if "j < length ps" for j
  proof -
    from assms that consider "ps' ! j = ps ! j" "avoids u e0 (ps ! j)"
      | "doomed u (ps ! j)" "ps' ! j = Settled None"
      unfolding paired_def by blast
    then show ?thesis
    proof cases
      case 1
      then show ?thesis by (cases "ps ! j") auto
    next
      case 2
      then show ?thesis by (cases "ps ! j") auto
    qed
  qed
  have len: "length ps' = length ps" using assms by (simp add: paired_def)
  show "map outcome ps' = map outcome ps"
    by (rule nth_equalityI) (simp_all add: len a)
  show "\<forall>m. Some m \<in> set (map outcome ps) \<longrightarrow> url m \<noteq> u"
  proof (intro allI impI)
    fix m assume "Some m \<in> set (map outcome ps)"
    then obtain j where "j < length ps" "outcome (ps ! j) = Some m"
      by (auto simp: in_set_conv_nth)
    then show "url m \<noteq> u" using a by blast
  qed
qed

lemma interleave_paired:
  assumes "paired u e0 batch ps ps'" and "lookup st u = e0"
  shows "paired u e0 batch (fst (interleave sched batch ps st evs))
           (fst (interleave sched batch ps' st evs'))
    \<and> fst (snd (interleave sched batch ps' st evs')) = fst (snd (interleave sched batch ps st evs))
    \<and> lookup (fst (snd (interleave sched batch ps st evs))) u = e0"
  using assms
proof (induction sched batch ps st evs arbitrary: ps' evs' rule: interleave.induct)
  case (1 batch ps st evs)
  then show ?case by simp
next
  case (2 i sched batch ps st evs)
  have len: "length ps' = length ps" using 2(3) by (simp add: paired_def)
  show ?case
  proof (cases "i < length ps")
    case False
    then show ?thesis using 2(2) [OF False 2(3) 2(4)] len by simp
  next
    case True
    obtain p st1 ev where r: "resume (snd (batch ! i)) st (ps ! i) = (p, st1, ev)"
      by (cases "resume (snd (batch ! i)) st (ps ! i)") auto
    obtain p' st1' ev' where r': "resume (snd (batch ! i)) st (ps' ! i) = (p', st1', ev')"
      by (cases "resume (snd (batch ! i)) st (ps' ! i)") auto
    from 2(3) True consider
      (same) "ps' ! i = ps ! i" "avoids u e0 (ps ! i)"
      | (lost) "doomed u (ps ! i)" "ps' ! i = Settled None"
          "fetch_fails (snd (batch ! i))" "no_valid_entry e0 (snd (batch ! i))"
      unfolding paired_def by blast
    then have step: "st1' = st1 \<and> lookup st1 u = e0
        \<and> ((p' = p \<and> avoids u e0 p)
            \<or> (doomed u p \<and> p' = Settled None \<and> fetch_fails (snd (batch ! i))
                \<and> no_valid_entry e0 (snd (batch ! i))))"
    proof cases
      case same
      then show ?thesis
        using resume_avoids [OF same(2) 2(4), of "snd (batch ! i)"] r r' by simp
    next
      case lost
      then show ?thesis
        using resume_doomed [OF lost(1,3,4) 2(4)] r r' 2(4) by simp
    qed
    have pr: "paired u e0 batch (ps[i := p]) (ps'[i := p'])"
      unfolding paired_def
    proof (intro conjI allI impI)
      show "length (ps'[i := p']) = length (ps[i := p])" using len by simp
    next
      fix j assume j: "j < length (ps[i := p])"
      show "(ps'[i := p'] ! j = ps[i := p] ! j \<and> avoids u e0 (ps[i := p] ! j))
          \<or> (doomed u (ps[i := p] ! j) \<and> ps'[i := p'] ! j = Settled None
              \<and> fetch_fails (snd (batch ! j)) \<and> no_valid_entry e0 (snd (batch ! j)))"
      proof (cases "j = i")
        case True
        then show ?thesis using step j len by simp
      next
        case False
        then show ?thesis using 2(3) j by (simp add: paired_def)
      qed
    qed
    have "paired u e0 batch (fst (interleave sched batch (ps[i := p]) st1 (evs @ ev)))
           (fst (interleave sched batch (ps'[i := p']) st1 (evs' @ ev')))
      \<and> fst (snd (interleave sched batch (ps'[i := p']) st1 (evs' @ ev')))
          = fst (snd (interleave sched batch (ps[i := p]) st1 (evs @ ev)))
      \<and> lookup (fst (snd (interleave sched batch (ps[i := p]) st1 (evs @ ev)))) u = e0"
      using step by (intro 2(1) [OF True r [symmetric] refl pr]) simp
    then show ?thesis using True len r r' step by simp
  qed
qed

lemma start_spared:
  assumes "list_all2 (spared u e0) c c'"
  shows "paired u e0 c (map (\<lambda>x. start (fst x)) c) (map (\<lambda>x. start (fst x)) c')"
proof -
  have len: "length c' = length c" using assms by (simp add: list_all2_lengthD)
  have "(start (fst (c' ! j)) = start (fst (c ! j)) \<and> avoids u e0 (start (fst (c ! j))))
      \<or> (doomed u (start (fst (c ! j))) \<and> start (fst (c' ! j)) = Settled None
          \<and> fetch_fails (snd (c ! j)) \<and> no_valid_entry e0 (snd (c ! j)))"
    if "j < length c" for j
  proof -
    have "spared u e0 (c ! j) (c' ! j)" using assms that by (simp add: list_all2_nthD)
    then show ?thesis
      by (auto simp: spared_def start_def inert_def split: option.splits)
  qed
  then show ?thesis using len by (simp add: paired_def)
qed

lemma resolveBatch_spared:
  assumes "list_all2 (spared u e0) c c'" and "lookup st u = e0"
  shows "results st c' = results st c"
    and "cache_after st c' = cache_after st c"
    and "lookup (cache_after st c) u = e0"
    and "\<forall>m. Some m \<in> set (results st c) \<longrightarrow> url m \<noteq> u"
proof -
  have len: "length c' = length c" using assms(1) by (simp add: list_all2_lengthD)
  have env: "snd (c' ! i) = snd (c ! i)" if "i < length c" for i
  proof -
    have "spared u e0 (c ! i) (c' ! i)" using assms(1) that by (simp add: list_all2_nthD)
    then show ?thesis by (auto simp: spared_def)
  qed
  have s: "schedule c' = schedule c"
    using len env by (intro schedule_cong) simp_all
  let ?ps = "map (\<lambda>x. start (fst x)) c" and ?ps' = "map (\<lambda>x. start (fst x)) c'"
  have i: "interleave (schedule c) c' ?ps' st [] = interleave (schedule c) c ?ps' st []"
    using len env by (intro interleave_cong) simp
  obtain qs s1 ev where q: "interleave (schedule c) c ?ps st [] = (qs, s1, ev)"
    by (cases "interleave (schedule c) c ?ps st []") auto
  obtain qs' s1' ev' where q': "interleave (schedule c) c ?ps' st [] = (qs', s1', ev')"
    by (cases "interleave (schedule c) c ?ps' st []") auto
  have p: "paired u e0 c qs qs'" "s1' = s1" "lookup s1 u = e0"
    using interleave_paired [OF start_spared [OF assms(1)] assms(2), of "schedule c" "[]" "[]"]
      q q' by simp_all
  have r: "resolveBatch st c = (map outcome qs, s1, ev)"
    "resolveBatch st c' = (map outcome qs', s1', ev')"
    unfolding resolveBatch_def s i by (simp_all add: q q')
  show "results st c' = results st c" and "cache_after st c' = cache_after st c"
    and "lookup (cache_after st c) u = e0"
    and "\<forall>m. Some m \<in> set (results st c) \<longrightarrow> url m \<noteq> u"
    using outcome_paired [OF p(1)] p(2,3) by (simp_all add: results_def cache_after_def r)
qed

lemma chunk_results_spared:
  assumes "list_all2 (list_all2 (spared u e0)) cs cs'" and "lookup st u = e0"
  shows "chunk_results st cs' = chunk_results st cs
    \<and> chunk_cache st cs' = chunk_cache st cs
    \<and> (\<forall>m. Some m \<in> set (chunk_results st cs) \<longrightarrow> url m \<noteq> u)"
  using assms
proof (induction cs cs' arbitrary: st rule: list_all2_induct)
  case Nil
  then show ?case by simp
next
  case (Cons c cs c' cs')
  note b = resolveBatch_spared [OF Cons.hyps(1) Cons.prems]
  have "chunk_results (cache_after st c) cs' = chunk_results (cache_after st c) cs
    \<and> chunk_cache (cache_after st c) cs' = chunk_cache (cache_after st c) cs
    \<and> (\<forall>m. Some m \<in> set (chunk_results (cache_after st c) cs) \<longrightarrow> url m \<noteq> u)"
    using b(3) by (rule Cons.IH)
  then show ?case using b by auto
qed

lemma run_spared:
  assumes "list_all2 (spared u e0) arr arr'" and "lookup st u = e0"
  shows "run_results b st arr' = run_results b st arr"
    and "run_cache b st arr' = run_cache b st arr"
    and "\<forall>m. Some m \<in> set (run_results b st arr) \<longrightarrow> url m \<noteq> u"
  using chunk_results_spared [OF chunks_all2 [OF assms(1)] assms(2), of b]
  by (simp_all add: run_results_def run_cache_def)

text \<open>A poster without a link settles with \<open>null\<close>, whatever else happens in the run.\<close>

lemma interleave_Settled:
  "j < length ps \<Longrightarrow> ps ! j = Settled r \<Longrightarrow>
     fst (interleave sched batch ps st evs) ! j = Settled r"
proof (induction sched batch ps st evs rule: interleave.induct)
  case (1 batch ps st evs)
  then show ?case by simp
next
  case (2 i sched batch ps st evs)
  show ?case
  proof (cases "i < length ps")
    case False
    then show ?thesis using 2 by simp
  next
    case True
    obtain p st' ev where r: "resume (snd (batch ! i)) st (ps ! i) = (p, st', ev)"
      by (cases "resume (snd (batch ! i)) st (ps ! i)") auto
    have "ps[i := p] ! j = Settled r"
      using 2(3,4) r by (cases "j = i") auto
    then have "fst (interleave sched batch (ps[i := p]) st' (evs @ ev)) ! j = Settled r"
      using 2(3) by (intro 2(1) [OF True r [symmetric] refl]) simp_all
    then show ?thesis using True r by simp
  qed
qed

lemma results_no_link:
  assumes "j < length c" and "link (fst (c ! j)) = None"
  shows "results st c ! j = None"
proof -
  let ?ps = "map (\<lambda>x. start (fst x)) c"
  have "?ps ! j = Settled None" using assms by (simp add: start_def)
  then have "fst (interleave (schedule c) c ?ps st []) ! j = Settled None"
    using assms(1) by (intro interleave_Settled) simp_all
  moreover have "j < length (fst (interleave (schedule c) c ?ps st []))"
    using assms(1) by (simp add: length_interleave)
  ultimately show ?thesis
    by (auto simp: results_def resolveBatch_def split: prod.splits)
qed

lemma length_chunk_results [simp]: "length (chunk_results st cs) = length (concat cs)"
  by (induction cs arbitrary: st) simp_all

lemma chunk_results_no_link:
  "j < length (concat cs) \<Longrightarrow> link (fst (concat cs ! j)) = None \<Longrightarrow>
     chunk_results st cs ! j = None"
proof (induction cs arbitrary: j st)
  case Nil
  then show ?case by simp
next
  case (Cons c cs)
  show ?case
  proof (cases "j < length c")
    case True
    then show ?thesis using Cons.prems by (simp add: nth_append results_no_link)
  next
    case False
    then have "chunk_results (cache_after st c) cs ! (j - length c) = None"
      using Cons.prems by (intro Cons.IH) (simp_all add: nth_append)
    then show ?thesis using False by (simp add: nth_append)
  qed
qed

lemma run_results_no_link:
  assumes "0 < b" and "j < length arr" and "link (fst (arr ! j)) = None"
  shows "run_results b st arr ! j = None"
  using chunk_results_no_link [of j "chunks b arr" st] assms
  by (simp add: run_results_def concat_chunks [OF assms(1)])

lemma set_successes: "set (successes rs) = {m. Some m \<in> set rs}"
  by (induction rs) (auto simp: successes_def)

text \<open>
  Whatever the storages a resolution finds at its four turns: when it settles with a
  value, that is the value of \<open>resolveMovie\<close> on the storage of its first turn, and when
  it has fetched the page, its write leaves the same entry for the address.
\<close>

lemma resume_Settled_iff:
  "resume env s (Settled x) = (p, t, e) \<longleftrightarrow> p = Settled x \<and> t = s \<and> e = []"
  by auto

lemma resume_turns:
  assumes "resume env s0 (start el) = (p1, t1, e1)"
    and "resume env s1 p1 = (p2, t2, e2)"
    and "resume env s2 p2 = (p3, t3, e3)"
    and "resume env s3 p3 = (Settled (Some r), t4, e4)"
  shows "fst (resolveMovie env s0 el) = Some r
    \<and> (Fetch (url r) \<in> set (e1 @ e2 @ e3 @ e4) \<longrightarrow>
          lookup t4 (url r) = lookup (fst (snd (resolveMovie env s0 el))) (url r))"
proof (cases "start el")
  case (Settled x)
  then have "p3 = Settled x" "x = None"
    using assms(1,2,3) by (auto simp: start_def split: option.splits if_splits)
  then show ?thesis using assms(4) by simp
next
  case (AwaitGet1 u t)
  then have el: "link el = Some u" "img_alt el = Some t" "t \<noteq> []"
    by (auto simp: start_def split: option.splits if_splits)
  show ?thesis
  proof (cases p1)
    case (Settled x)
    then have "p3 = Settled x" "e2 = []" "e3 = []"
      using assms(2,3) by auto
    then have x: "x = Some r" "e4 = []" using assms(4) by auto
    have ok: "get1_ok env" and "e1 = [StorageGet]"
      using assms(1) AwaitGet1 Settled x(1) by (auto split: if_splits option.splits)
    moreover obtain e where "lookup s0 u = Some e" "now1 env - lastFetched e < CACHE_EXPIRY"
      "r = \<lparr>title = t, releaseDate = dateOfISO (cachedReleaseDate e),
        nextAnniversary = dateOfISO (cachedNextAnniversary e), url = u\<rparr>"
      using assms(1) AwaitGet1 Settled x(1) by (auto split: if_splits option.splits)
    ultimately show ?thesis
      using resolveMovie_hit [OF el ok, of s0 e] x(2) \<open>e2 = []\<close> \<open>e3 = []\<close> by simp
  next
    case (AwaitFetch u' t')
    then have miss: "get1_ok env" "u' = u" "t' = t"
      "\<forall>e. lookup s0 u = Some e \<longrightarrow> \<not> now1 env - lastFetched e < CACHE_EXPIRY"
      using assms(1) AwaitGet1 by (auto split: if_splits option.splits)
    obtain rel where p2: "p2 = AwaitGet2 u t rel (calculateNextAnniversary (today env) rel)"
      and page: "\<exists>txt. response env = Page (Some txt) \<and> txt \<noteq> [] \<and> parseDate env txt = Some rel"
    proof (cases p2)
      case (Settled x)
      then have "p3 = Settled x" using assms(3) by auto
      then have "x = Some r" using assms(4) by auto
      then show ?thesis
        using assms(2) AwaitFetch Settled
        by (auto split: fetch_outcome.splits option.splits if_splits)
    next
      case (AwaitGet2 u2 t2 rel nxt)
      then show ?thesis
        using assms(2) AwaitFetch miss(2,3) that
        by (auto split: fetch_outcome.splits option.splits if_splits)
    qed (use assms(2) AwaitFetch in
      \<open>auto split: fetch_outcome.splits option.splits if_splits\<close>)
    let ?next = "calculateNextAnniversary (today env) rel"
    let ?e = "\<lparr>cachedReleaseDate = toISOString rel, lastFetched = now2 env,
        cachedNextAnniversary = toISOString ?next\<rparr>"
    obtain doc where p3: "p3 = AwaitSet u t rel ?next doc" and doc: "doc u = Some ?e"
      and g2: "get2_ok env"
    proof (cases p3)
      case (Settled x)
      then show ?thesis
        using assms(3,4) p2 by (auto split: if_splits)
    next
      case (AwaitSet u3 t3 r3 n3 d3)
      then show ?thesis
        using assms(3) p2 that by (auto split: if_splits)
    qed (use assms(3) p2 in \<open>auto split: if_splits\<close>)
    have fin: "set_ok env" "t4 = Some doc"
      "r = \<lparr>title = t, releaseDate = rel, nextAnniversary = ?next, url = u\<rparr>"
      using assms(4) p3 by (auto split: if_splits)
    have "fetchFresh env s0 u t =
        (Some r, Some ((case s0 of None \<Rightarrow> Map.empty | Some d \<Rightarrow> d)(u \<mapsto> ?e)),
         [Fetch u, StorageGet, StorageSet])"
      using page g2 fin(1,3) by (auto simp: fetchFresh_def Let_def)
    then show ?thesis
      using resolveMovie_miss [OF el miss(1,4)] fin doc by (simp add: lookup_def)
  qed (use assms(1) AwaitGet1 in \<open>auto split: if_splits option.splits\<close>)
qed (auto simp: start_def split: option.splits if_splits)
section \<open>Batches and progress\<close>

text \<open>
  Claim C1. For every list of entries and every batch size that is not 0, the run ends;
  the slices the loop takes are, put together in order, the list itself, each has at
  least one and at most batch-size entries, and there are \<open>ceil(N/B)\<close> of them; progress
  is reported once per slice, with strictly increasing processed counts, the last of which
  is \<open>N\<close>.
\<close>

theorem showAnniversaries_batches:
  assumes "0 < b"
  shows "\<exists>s. showAnniversaries b d arr st = Some s
    \<and> concat (batches_of (trace s)) = map fst arr
    \<and> (\<forall>c \<in> set (batches_of (trace s)). c \<noteq> [] \<and> length c \<le> b)
    \<and> length (batches_of (trace s)) = (length arr + b - 1) div b
    \<and> length (progress_of (trace s)) = (length arr + b - 1) div b
    \<and> sorted_wrt (<) (progress_of (trace s))
    \<and> (arr \<noteq> [] \<longrightarrow> last (progress_of (trace s)) = length arr)"
proof -
  define s where "s = \<lparr>processedMovies = length arr,
      movies = array_sort compareAnniversary (successes (run_results b st arr)),
      cache = run_cache b st arr,
      trace = schedule_trace d (length arr) 0 st (chunks b arr)\<rparr>"
  have run: "showAnniversaries b d arr st = Some s"
    by (simp add: s_def showAnniversaries_eq [OF assms])
  have bs: "batches_of (trace s) = map (map fst) (chunks b arr)"
    and ps: "progress_of (trace s) = running 0 (chunks b arr)"
    by (simp_all add: s_def schedule_trace_reads)
  have ne: "\<forall>c \<in> set (chunks b arr). c \<noteq> []"
    using chunks_bounds by blast
  have "concat (batches_of (trace s)) = map fst arr"
    by (simp add: bs map_concat [symmetric] concat_chunks [OF assms])
  moreover have "\<forall>c \<in> set (batches_of (trace s)). c \<noteq> [] \<and> length c \<le> b"
    using chunks_bounds [of _ b arr] by (auto simp: bs)
  moreover have "length (batches_of (trace s)) = (length arr + b - 1) div b"
    by (simp add: bs length_chunks [OF assms])
  moreover have "length (progress_of (trace s)) = (length arr + b - 1) div b"
    by (simp add: ps length_chunks [OF assms])
  moreover have "sorted_wrt (<) (progress_of (trace s))"
    unfolding ps by (rule running_increasing [OF ne])
  moreover have "last (progress_of (trace s)) = length arr" if "arr \<noteq> []"
  proof -
    have "chunks b arr \<noteq> []" using that by (simp add: chunks_eq_Nil [OF assms])
    then show ?thesis
      by (simp add: ps last_running concat_chunks [OF assms])
  qed
  ultimately show ?thesis using run by blast
qed

theorem showAnniversaries_batches_witness:
  "0 < BATCH_SIZE
   \<and> [poster ''/film/a/'' ''A'', poster ''/film/b/'' ''B'', poster ''/film/c/'' ''C'',
       poster ''/film/d/'' ''D'', poster ''/film/e/'' ''E'', poster ''/film/f/'' ''F'',
       poster ''/film/g/'' ''G''] \<noteq> []
   \<and> (\<exists>s. onClick
         [(poster ''/film/a/'' ''A'', env_ok), (poster ''/film/b/'' ''B'', env_ok),
          (poster ''/film/c/'' ''C'', env_offline), (poster ''/film/d/'' ''D'', env_ok),
          (poster ''/film/e/'' ''E'', env_ok), (poster ''/film/f/'' ''F'', env_ok),
          (poster ''/film/g/'' ''G'', env_ok)] None = Some s
       \<and> concat (batches_of (trace s)) =
           [poster ''/film/a/'' ''A'', poster ''/film/b/'' ''B'', poster ''/film/c/'' ''C'',
            poster ''/film/d/'' ''D'', poster ''/film/e/'' ''E'', poster ''/film/f/'' ''F'',
            poster ''/film/g/'' ''G'']
       \<and> length (batches_of (trace s)) = 2
       \<and> length (progress_of (trace s)) = 2
       \<and> sorted_wrt (<) (progress_of (trace s))
       \<and> last (progress_of (trace s)) = 7)"
proof -
  have b: "0 < BATCH_SIZE" by (simp add: BATCH_SIZE_def)
  show ?thesis
    using showAnniversaries_batches [OF b, of DELAY_BETWEEN_BATCHES
      "[(poster ''/film/a/'' ''A'', env_ok), (poster ''/film/b/'' ''B'', env_ok),
        (poster ''/film/c/'' ''C'', env_offline), (poster ''/film/d/'' ''D'', env_ok),
        (poster ''/film/e/'' ''E'', env_ok), (poster ''/film/f/'' ''F'', env_ok),
        (poster ''/film/g/'' ''G'', env_ok)]" None] b
    by (auto simp: onClick_def BATCH_SIZE_def)
qed

section \<open>The sorted result\<close>

text \<open>
  Claim C2. For every run (with a batch size that is not 0), the list the run ends with
  holds exactly the results that are not \<open>null\<close>, each as often as it was produced; it is
  sorted in ascending order of the time value of \<open>nextAnniversary\<close>; and the entries with one
  and the same time value stand in the order of the input. For a second run whose
  successful results are the same up to order, the sequence of anniversary dates of its
  list is the same, and the list itself is the same when no two anniversaries coincide.
  And whatever the instants at which the resolutions settle, the run ends with the same
  list: \<open>Promise.all\<close> puts the results of a batch together by position.
\<close>

theorem showAnniversaries_sorted:
  assumes "0 < b" and "0 < b'"
    and "mset (successes (run_results b' st' arr')) = mset (successes (run_results b st arr))"
  shows "\<exists>s s'. showAnniversaries b d arr st = Some s
    \<and> showAnniversaries b' d' arr' st' = Some s'
    \<and> mset (map Some (movies s))
        = filter_mset (\<lambda>r. r \<noteq> None) (mset (run_results b st arr))
    \<and> sorted (map (\<lambda>m. getTime (nextAnniversary m)) (movies s))
    \<and> (\<forall>k. filter (\<lambda>m. getTime (nextAnniversary m) = k) (movies s)
           = filter (\<lambda>m. getTime (nextAnniversary m) = k) (successes (run_results b st arr)))
    \<and> map (\<lambda>m. getTime (nextAnniversary m)) (movies s')
        = map (\<lambda>m. getTime (nextAnniversary m)) (movies s)
    \<and> (distinct (map (\<lambda>m. getTime (nextAnniversary m)) (movies s)) \<longrightarrow>
          movies s' = movies s)
    \<and> (\<forall>f. \<exists>s''. showAnniversaries b d
            (map (\<lambda>x. (fst x, (snd x)\<lparr>settles := f x\<rparr>)) arr) st = Some s''
          \<and> movies s'' = movies s)"
proof -
  define key :: "MovieAnniversary \<Rightarrow> int" where "key = (\<lambda>m. getTime (nextAnniversary m))"
  define out where "out = sort_key key (successes (run_results b st arr))"
  define out' where "out' = sort_key key (successes (run_results b' st' arr'))"
  define s where "s = \<lparr>processedMovies = length arr, movies = out,
      cache = run_cache b st arr,
      trace = schedule_trace d (length arr) 0 st (chunks b arr)\<rparr>"
  define s' where "s' = \<lparr>processedMovies = length arr', movies = out',
      cache = run_cache b' st' arr',
      trace = schedule_trace d' (length arr') 0 st' (chunks b' arr')\<rparr>"
  have run: "showAnniversaries b d arr st = Some s"
    "showAnniversaries b' d' arr' st' = Some s'"
    by (simp_all add: s_def s'_def out_def out'_def key_def showAnniversaries_eq assms(1,2)
        array_sort_compareAnniversary)
  have m: "movies s = out" "movies s' = out'"
    by (simp_all add: s_def s'_def)
  have ms: "mset out = mset (successes (run_results b st arr))"
    and ms': "mset out' = mset out"
    by (simp_all add: out_def out'_def assms(3))
  have "mset (map Some out) = mset (map Some (successes (run_results b st arr)))"
    using ms by (metis mset_map)
  then have kept: "mset (map Some out)
      = filter_mset (\<lambda>r. r \<noteq> None) (mset (run_results b st arr))"
    by (simp add: map_Some_successes)
  have srt: "sorted (map key out)"
    by (simp add: out_def)
  have stable: "filter (\<lambda>m. key m = k) out
      = filter (\<lambda>m. key m = k) (successes (run_results b st arr))" for k
    unfolding out_def by (rule sort_key_stable)
  have "mset (map key (successes (run_results b' st' arr')))
      = mset (map key (successes (run_results b st arr)))"
    using assms(3) by (metis mset_map)
  then have keys: "map key out' = map key out"
    unfolding out_def out'_def map_sort_key by (rule sort_cong_mset)
  have same: "out' = out" if "distinct (map key out)"
  proof -
    have "inj_on key (set out)" using that by (simp add: distinct_map)
    moreover have "set out' = set out" using ms' by (rule mset_eq_setD)
    ultimately have "inj_on key (set out' \<union> set out)" by simp
    then show ?thesis using keys by (simp add: inj_on_map_eq_map)
  qed
  have order: "\<exists>s''. showAnniversaries b d
      (map (\<lambda>x. (fst x, (snd x)\<lparr>settles := f x\<rparr>)) arr) st = Some s'' \<and> movies s'' = out" for f
    by (simp add: showAnniversaries_eq [OF assms(1)] run_results_settles out_def key_def
        array_sort_compareAnniversary)
  show ?thesis
    using run kept srt stable keys same order unfolding m [symmetric] key_def by blast
qed

theorem showAnniversaries_sorted_witness:
  "0 < BATCH_SIZE \<and> (0::nat) < 2
   \<and> mset (successes (run_results 2 sample_cache
         [(poster ''/film/c/'' ''C'', env_ok), (poster ''/film/a/'' ''A'', env_ok),
          (poster ''/film/x/'' '''', env_ok), (poster ''/film/b/'' ''B'', env_ok)]))
     = mset (successes (run_results BATCH_SIZE sample_cache
         [(poster ''/film/a/'' ''A'', env_ok), (poster ''/film/b/'' ''B'', env_ok),
          (poster ''/film/c/'' ''C'', env_ok)]))
   \<and> (\<exists>s s'. onClick
         [(poster ''/film/a/'' ''A'', env_ok), (poster ''/film/b/'' ''B'', env_ok),
          (poster ''/film/c/'' ''C'', env_ok)] sample_cache = Some s
       \<and> showAnniversaries 2 0
         [(poster ''/film/c/'' ''C'', env_ok), (poster ''/film/a/'' ''A'', env_ok),
          (poster ''/film/x/'' '''', env_ok), (poster ''/film/b/'' ''B'', env_ok)]
         sample_cache = Some s'
       \<and> map title (movies s) = [''C'', ''B'', ''A'']
       \<and> map nextAnniversary (movies s) =
           [\<lparr>year = 2025, month = 5, day = 15, msInDay = 0\<rparr>,
            \<lparr>year = 2026, month = 0, day = 15, msInDay = 0\<rparr>,
            \<lparr>year = 2026, month = 2, day = 1, msInDay = 0\<rparr>]
       \<and> distinct (map (\<lambda>m. getTime (nextAnniversary m)) (movies s))
       \<and> sorted (map (\<lambda>m. getTime (nextAnniversary m)) (movies s))
       \<and> movies s' = movies s)"
proof -
  let ?arr = "[(poster ''/film/a/'' ''A'', env_ok), (poster ''/film/b/'' ''B'', env_ok),
          (poster ''/film/c/'' ''C'', env_ok)]"
  let ?arr' = "[(poster ''/film/c/'' ''C'', env_ok), (poster ''/film/a/'' ''A'', env_ok),
          (poster ''/film/x/'' '''', env_ok), (poster ''/film/b/'' ''B'', env_ok)]"
  let ?a = "\<lparr>title = ''A'',
      releaseDate = \<lparr>year = 2000, month = 2, day = 1, msInDay = 0\<rparr>,
      nextAnniversary = \<lparr>year = 2026, month = 2, day = 1, msInDay = 0\<rparr>,
      url = ''/film/a/''\<rparr>"
  let ?b = "\<lparr>title = ''B'',
      releaseDate = \<lparr>year = 1995, month = 0, day = 15, msInDay = 0\<rparr>,
      nextAnniversary = \<lparr>year = 2026, month = 0, day = 15, msInDay = 0\<rparr>,
      url = ''/film/b/''\<rparr>"
  let ?c = "\<lparr>title = ''C'',
      releaseDate = \<lparr>year = 2000, month = 5, day = 15, msInDay = 0\<rparr>,
      nextAnniversary = \<lparr>year = 2025, month = 5, day = 15, msInDay = 0\<rparr>,
      url = ''/film/c/''\<rparr>"
  have b: "0 < BATCH_SIZE" "(0::nat) < 2" by (simp_all add: BATCH_SIZE_def)
  have hit: "resolveMovie env_ok sample_cache (poster ''/film/a/'' ''A'')
      = (Some ?a, sample_cache, [StorageGet])"
    "resolveMovie env_ok sample_cache (poster ''/film/b/'' ''B'')
      = (Some ?b, sample_cache, [StorageGet])"
    "resolveMovie env_ok sample_cache (poster ''/film/c/'' ''C'')
      = (Some ?c, sample_cache, [StorageGet])"
    "resolveMovie env_ok sample_cache (poster ''/film/x/'' '''') = (None, sample_cache, [])"
    by (simp_all add: resolveMovie_def lookup_def sample_cache_def cached_def poster_def
        env_ok_def CACHE_EXPIRY_def toISOString_def)
  have turn: "\<forall>x \<in> set ?arr. \<forall>k. awaits (snd x) k = 0"
    "\<forall>x \<in> set ?arr'. \<forall>k. awaits (snd x) k = 0"
    by (simp_all add: env_ok_def)
  have r: "run_results BATCH_SIZE sample_cache ?arr = [Some ?a, Some ?b, Some ?c]"
    "run_results 2 sample_cache ?arr' = [Some ?c, Some ?a, None, Some ?b]"
    unfolding run_in_turn [OF b(1) turn(1)] run_in_turn [OF b(2) turn(2)]
    by (simp_all add: resolveInTurn_Cons hit)
  have m: "mset (successes (run_results 2 sample_cache ?arr'))
      = mset (successes (run_results BATCH_SIZE sample_cache ?arr))"
    unfolding r by simp
  obtain s s' where s: "showAnniversaries BATCH_SIZE DELAY_BETWEEN_BATCHES ?arr sample_cache = Some s"
    "showAnniversaries 2 0 ?arr' sample_cache = Some s'"
    "sorted (map (\<lambda>m. getTime (nextAnniversary m)) (movies s))"
    "distinct (map (\<lambda>m. getTime (nextAnniversary m)) (movies s)) \<longrightarrow> movies s' = movies s"
    using showAnniversaries_sorted [OF b m, of DELAY_BETWEEN_BATCHES 0] by blast
  have "movies s
      = array_sort compareAnniversary (successes (run_results BATCH_SIZE sample_cache ?arr))"
    using s(1) by (auto simp: showAnniversaries_eq [OF b(1)])
  then have ms: "movies s = [?c, ?b, ?a]"
    unfolding r
    by (simp add: array_sort_def compareAnniversary_def getTime_def MakeDate_def MakeDay_def
        DayFromYear_def monthStart_def msPerDay_def leap_def)
  have d: "distinct (map (\<lambda>m. getTime (nextAnniversary m)) (movies s))"
    unfolding ms
    by (simp add: getTime_def MakeDate_def MakeDay_def DayFromYear_def monthStart_def
        msPerDay_def leap_def)
  then have "movies s' = movies s" using s(4) by simp
  then show ?thesis
    using b m s(1,2,3) d ms by (auto simp: onClick_def)
qed

section \<open>The next anniversary\<close>




text \<open>
  After the run-over the day of the month is lost: seen from 1 June 2023, the release of
  29 February 2000 is moved to 1 March 2023, which has passed, and from there to 1 March
  2024, although 2024 has a 29 February.
\<close>

lemma calculateNextAnniversary_leap_year_after_run_over:
  "calculateNextAnniversary \<lparr>year = 2023, month = 5, day = 1, msInDay = 0\<rparr>
     \<lparr>year = 2000, month = 1, day = 29, msInDay = 0\<rparr>
   = \<lparr>year = 2024, month = 2, day = 1, msInDay = 0\<rparr>"
  by (simp add: date_eval)

section \<open>Storage failures\<close>

text \<open>
  Claim C4, as the code has it. Every await of the resolution stands inside one \<open>try\<close>
  whose \<open>catch\<close> logs the error and answers \<open>null\<close>. So, for every entry with a link and a
  title: when the first read of the storage fails, the resolution ends with \<open>null\<close>, the
  error logged, and no request is made; when, after a page has been fetched and its date
  parsed, the second read or the write fails, the resolution ends with \<open>null\<close> as well, the
  error logged, the storage as it was; the anniversary just computed is not returned.
\<close>

theorem resolveMovie_storage_failure:
  assumes "link el = Some u" and "img_alt el = Some t" and "t \<noteq> []"
  shows "(\<not> get1_ok env \<longrightarrow>
            resolveMovie env st el = (None, st, [StorageGet, ConsoleError t]))
    \<and> (get1_ok env
        \<and> (\<forall>e. lookup st u = Some e \<longrightarrow> \<not> now1 env - lastFetched e < CACHE_EXPIRY)
        \<and> response env = Page (Some txt) \<and> txt \<noteq> [] \<and> parseDate env txt = Some rel \<longrightarrow>
          (\<not> get2_ok env \<longrightarrow>
             resolveMovie env st el =
               (None, st, [StorageGet, Fetch u, StorageGet, ConsoleError t]))
        \<and> (get2_ok env \<and> \<not> set_ok env \<longrightarrow>
             resolveMovie env st el =
               (None, st, [StorageGet, Fetch u, StorageGet, StorageSet, ConsoleError t])))"
proof -
  have "resolveMovie env st el = (None, st, [StorageGet, ConsoleError t])" if "\<not> get1_ok env"
    using assms that by (simp add: resolveMovie_def)
  moreover have "resolveMovie env st el =
      (None, st, [StorageGet, Fetch u, StorageGet, ConsoleError t])"
    if "get1_ok env"
      and "\<forall>e. lookup st u = Some e \<longrightarrow> \<not> now1 env - lastFetched e < CACHE_EXPIRY"
      and "response env = Page (Some txt)" and "txt \<noteq> []" and "parseDate env txt = Some rel"
      and "\<not> get2_ok env"
    unfolding resolveMovie_miss [OF assms that(1,2)]
    using that(3-6) by (simp add: fetchFresh_def Let_def)
  moreover have "resolveMovie env st el =
      (None, st, [StorageGet, Fetch u, StorageGet, StorageSet, ConsoleError t])"
    if "get1_ok env"
      and "\<forall>e. lookup st u = Some e \<longrightarrow> \<not> now1 env - lastFetched e < CACHE_EXPIRY"
      and "response env = Page (Some txt)" and "txt \<noteq> []" and "parseDate env txt = Some rel"
      and "get2_ok env" and "\<not> set_ok env"
    unfolding resolveMovie_miss [OF assms that(1,2)]
    using that(3-7) by (simp add: fetchFresh_def Let_def)
  ultimately show ?thesis by blast
qed

theorem resolveMovie_storage_failure_witness:
  "link (poster ''/film/a/'' ''A'') = Some ''/film/a/''
   \<and> img_alt (poster ''/film/a/'' ''A'') = Some ''A'' \<and> ''A'' \<noteq> []
   \<and> \<not> get1_ok env_unreadable
   \<and> resolveMovie env_unreadable None (poster ''/film/a/'' ''A'')
       = (None, None, [StorageGet, ConsoleError ''A''])
   \<and> get1_ok env_unwritable \<and> lookup None ''/film/a/'' = None
   \<and> response env_unwritable = Page (Some ''15 Jun 2000'') \<and> ''15 Jun 2000'' \<noteq> []
   \<and> parseDate env_unwritable ''15 Jun 2000''
       = Some \<lparr>year = 2000, month = 5, day = 15, msInDay = 0\<rparr>
   \<and> get2_ok env_unwritable \<and> \<not> set_ok env_unwritable
   \<and> resolveMovie env_unwritable None (poster ''/film/a/'' ''A'')
       = (None, None, [StorageGet, Fetch ''/film/a/'', StorageGet, StorageSet,
          ConsoleError ''A''])"
proof -
  have el: "link (poster ''/film/a/'' ''A'') = Some ''/film/a/''"
    "img_alt (poster ''/film/a/'' ''A'') = Some ''A''" "''A'' \<noteq> []"
    by (simp_all add: poster_def)
  have r: "\<not> get1_ok env_unreadable"
    by (simp add: env_unreadable_def env_ok_def)
  have w: "get1_ok env_unwritable" "lookup None ''/film/a/'' = None"
    "response env_unwritable = Page (Some ''15 Jun 2000'')" "''15 Jun 2000'' \<noteq> []"
    "parseDate env_unwritable ''15 Jun 2000''
       = Some \<lparr>year = 2000, month = 5, day = 15, msInDay = 0\<rparr>"
    "get2_ok env_unwritable" "\<not> set_ok env_unwritable"
    by (simp_all add: env_unwritable_def env_ok_def lookup_def sample_parse_def)
  show ?thesis
    using resolveMovie_storage_failure [OF el, of env_unreadable None]
      resolveMovie_storage_failure [OF el, of env_unwritable None "''15 Jun 2000''"
        "\<lparr>year = 2000, month = 5, day = 15, msInDay = 0\<rparr>"]
      el r w
    by simp
qed

text \<open>
  The claim as written fails in both parts: with a storage that cannot be read the entry
  resolves to \<open>null\<close> and no request is made, although the same world with a readable
  storage resolves it; with a storage that cannot be written the entry resolves to \<open>null\<close>
  after the fetch.
\<close>

theorem resolveMovie_storage_failure_counterexample:
  "resolveMovie env_unreadable None (poster ''/film/a/'' ''A'')
     = (None, None, [StorageGet, ConsoleError ''A''])
   \<and> Fetch ''/film/a/'' \<notin> set (snd (snd
       (resolveMovie env_unreadable None (poster ''/film/a/'' ''A''))))
   \<and> fst (resolveMovie env_ok None (poster ''/film/a/'' ''A'')) \<noteq> None
   \<and> response env_unwritable = Page (Some ''15 Jun 2000'')
   \<and> fst (resolveMovie env_unwritable None (poster ''/film/a/'' ''A'')) = None"
  by (simp add: resolveMovie_def fetchFresh_def lookup_def poster_def env_unreadable_def
      env_unwritable_def env_ok_def sample_parse_def Let_def)

section \<open>Partial failure\<close>

text \<open>
  Claim C5. Take a run (with a batch size that is not 0) and in it an entry \<open>x\<close> whose
  request is rejected, or whose page has no date element, or an empty one, or one whose
  text is no date, while the storage holds no valid entry for its address \<open>u\<close> and no
  other entry of the list has that address. Then the run ends all the same; the
  resolution of \<open>x\<close> gives \<open>null\<close> and the final list has no film of address \<open>u\<close>; every
  result, the final list and the storage left are those of the run in which a poster
  without a link, which does nothing at all, stands in the place of \<open>x\<close>, however the
  resolutions of a batch interleave; and progress is reported for every batch, the failed
  entry counted among the processed ones.
\<close>

theorem showAnniversaries_partial_failure:
  assumes "0 < b"
    and "link (fst x) = Some u"
    and "response (snd x) = FetchRejected \<or> response (snd x) = Page None
      \<or> response (snd x) = Page (Some [])
      \<or> (\<exists>txt. response (snd x) = Page (Some txt) \<and> parseDate (snd x) txt = None)"
    and "\<forall>e. lookup st u = Some e \<longrightarrow> \<not> now1 (snd x) - lastFetched e < CACHE_EXPIRY"
    and "\<forall>y \<in> set (xs @ ys). link (fst y) \<noteq> Some u"
  shows "\<exists>s s'. showAnniversaries b d (xs @ x # ys) st = Some s
    \<and> showAnniversaries b d (xs @ (\<lparr>link = None, img_alt = None\<rparr>, snd x) # ys) st = Some s'
    \<and> run_results b st (xs @ x # ys) ! length xs = None
    \<and> (\<forall>m \<in> set (movies s). url m \<noteq> u)
    \<and> run_results b st (xs @ x # ys)
        = run_results b st (xs @ (\<lparr>link = None, img_alt = None\<rparr>, snd x) # ys)
    \<and> movies s = movies s'
    \<and> cache s = cache s'
    \<and> length (progress_of (trace s)) = (length (xs @ x # ys) + b - 1) div b
    \<and> last (progress_of (trace s)) = length (xs @ x # ys)"
proof -
  let ?arr = "xs @ x # ys"
  let ?arr' = "xs @ (\<lparr>link = None, img_alt = None\<rparr>, snd x) # ys"
  define s where "s = \<lparr>processedMovies = length ?arr,
      movies = array_sort compareAnniversary (successes (run_results b st ?arr)),
      cache = run_cache b st ?arr,
      trace = schedule_trace d (length ?arr) 0 st (chunks b ?arr)\<rparr>"
  define s' where "s' = \<lparr>processedMovies = length ?arr',
      movies = array_sort compareAnniversary (successes (run_results b st ?arr')),
      cache = run_cache b st ?arr',
      trace = schedule_trace d (length ?arr') 0 st (chunks b ?arr')\<rparr>"
  have run: "showAnniversaries b d ?arr st = Some s" "showAnniversaries b d ?arr' st = Some s'"
    by (simp_all add: s_def s'_def showAnniversaries_eq [OF assms(1)])
  have others: "list_all2 (spared u (lookup st u)) zs zs" if "set zs \<subseteq> set (xs @ ys)" for zs
    using that assms(5) by (auto simp: list_all2_same spared_def)
  have "spared u (lookup st u) x (\<lparr>link = None, img_alt = None\<rparr>, snd x)"
    using assms(2,3,4) by (simp add: spared_def fetch_fails_def no_valid_entry_def inert_def)
  then have "list_all2 (spared u (lookup st u)) ?arr ?arr'"
    using others [of xs] others [of ys] by (intro list_all2_appendI) simp_all
  note sp = run_spared [OF this refl, of b]
  have "run_results b st ?arr' ! length xs = None"
    by (rule run_results_no_link [OF assms(1)]) simp_all
  then have failed: "run_results b st ?arr ! length xs = None"
    by (simp only: sp(1))
  have "set (movies s) = set (successes (run_results b st ?arr))"
    by (simp add: s_def array_sort_compareAnniversary)
  then have omitted: "\<forall>m \<in> set (movies s). url m \<noteq> u"
    using sp(3) by (simp add: set_successes)
  have same: "movies s = movies s'" "cache s = cache s'"
    by (simp_all add: s_def s'_def sp(1,2))
  have p1: "length (progress_of (trace s)) = (length ?arr + b - 1) div b"
    by (simp add: s_def schedule_trace_reads length_chunks [OF assms(1)])
  have p2: "last (progress_of (trace s)) = length ?arr"
  proof -
    have "chunks b ?arr \<noteq> []" by (simp add: chunks_eq_Nil [OF assms(1)])
    then show ?thesis
      by (simp add: s_def schedule_trace_reads last_running concat_chunks [OF assms(1)])
  qed
  show ?thesis
    using run failed omitted sp(1) same p1 p2 by (intro exI [of _ s] exI [of _ s']) simp
qed

theorem showAnniversaries_partial_failure_witness:
  "0 < BATCH_SIZE
   \<and> link (poster ''/film/c/'' ''C'') = Some ''/film/c/''
   \<and> response env_offline = FetchRejected
   \<and> response env_nodate = Page None
   \<and> response env_blank = Page (Some [])
   \<and> response env_garbage = Page (Some ''soon'') \<and> parseDate env_garbage ''soon'' = None
   \<and> lookup None ''/film/c/'' = None
   \<and> (\<exists>s. onClick
         ([(poster ''/film/a/'' ''A'', env_ok), (poster ''/film/b/'' ''B'', env_ok)]
          @ (poster ''/film/c/'' ''C'', env_offline)
          # [(poster ''/film/d/'' ''D'', env_ok), (poster ''/film/e/'' ''E'', env_ok)]) None
         = Some s
       \<and> map title (movies s) = [''A'', ''B'', ''D'', ''E'']
       \<and> progress_of (trace s) = [5])
   \<and> (\<exists>s. onClick
         ([(poster ''/film/a/'' ''A'', env_ok), (poster ''/film/b/'' ''B'', env_ok)]
          @ (poster ''/film/c/'' ''C'', env_nodate)
          # [(poster ''/film/d/'' ''D'', env_ok), (poster ''/film/e/'' ''E'', env_ok)]) None
         = Some s
       \<and> map title (movies s) = [''A'', ''B'', ''D'', ''E'']
       \<and> progress_of (trace s) = [5])
   \<and> (\<exists>s. onClick
         ([(poster ''/film/a/'' ''A'', env_ok), (poster ''/film/b/'' ''B'', env_ok)]
          @ (poster ''/film/c/'' ''C'', env_blank)
          # [(poster ''/film/d/'' ''D'', env_ok), (poster ''/film/e/'' ''E'', env_ok)]) None
         = Some s
       \<and> map title (movies s) = [''A'', ''B'', ''D'', ''E'']
       \<and> progress_of (trace s) = [5])
   \<and> (\<exists>s. onClick
         ([(poster ''/film/a/'' ''A'', env_ok), (poster ''/film/b/'' ''B'', env_ok)]
          @ (poster ''/film/c/'' ''C'', env_garbage)
          # [(poster ''/film/d/'' ''D'', env_ok), (poster ''/film/e/'' ''E'', env_ok)]) None
         = Some s
       \<and> map title (movies s) = [''A'', ''B'', ''D'', ''E'']
       \<and> progress_of (trace s) = [5])"
proof -
  let ?xs = "[(poster ''/film/a/'' ''A'', env_ok), (poster ''/film/b/'' ''B'', env_ok)]"
  let ?ys = "[(poster ''/film/d/'' ''D'', env_ok), (poster ''/film/e/'' ''E'', env_ok)]"
  let ?rel = "\<lparr>year = 2000, month = 5, day = 15, msInDay = 0\<rparr>"
  let ?next = "\<lparr>year = 2025, month = 5, day = 15, msInDay = 0\<rparr>"
  have b: "0 < BATCH_SIZE" by (simp add: BATCH_SIZE_def)
  have lk: "link (fst (poster ''/film/c/'' ''C'', env)) = Some ''/film/c/''" for env :: item_env
    by (simp add: poster_def)
  have nv: "\<forall>e. lookup None ''/film/c/'' = Some e \<longrightarrow> \<not> now1 env - lastFetched e < CACHE_EXPIRY"
    for env :: item_env
    by (simp add: lookup_def)
  have uq: "\<forall>y \<in> set (?xs @ ?ys). link (fst y) \<noteq> Some ''/film/c/''"
    by (simp add: poster_def)
  have nx: "calculateNextAnniversary (today env_ok) ?rel = ?next"
    by (simp add: env_ok_def date_eval)
  have ok: "resolveMovie env_ok st (poster u t) =
      (Some \<lparr>title = t, releaseDate = ?rel, nextAnniversary = ?next, url = u\<rparr>,
       Some ((case st of None \<Rightarrow> Map.empty | Some doc \<Rightarrow> doc)(u \<mapsto>
         \<lparr>cachedReleaseDate = toISOString ?rel, lastFetched = 1749556800000,
          cachedNextAnniversary = toISOString ?next\<rparr>)),
       [StorageGet, Fetch u, StorageGet, StorageSet])"
    if "lookup st u = None" and "t \<noteq> []" for st u t
    using that nx
    by (simp add: resolveMovie_def fetchFresh_def poster_def Let_def env_ok_def
        sample_parse_def)
  have no: "resolveMovie env st \<lparr>link = None, img_alt = None\<rparr> = (None, st, [])" for env st
    by (simp add: resolveMovie_def)
  have main: "\<exists>s. onClick (?xs @ (poster ''/film/c/'' ''C'', env) # ?ys) None = Some s
      \<and> map title (movies s) = [''A'', ''B'', ''D'', ''E'']
      \<and> progress_of (trace s) = [5]"
    if cause: "response env = FetchRejected \<or> response env = Page None
        \<or> response env = Page (Some [])
        \<or> (\<exists>txt. response env = Page (Some txt) \<and> parseDate env txt = None)"
      and aw: "\<forall>k. awaits env k = 0" for env
  proof -
    let ?x = "(poster ''/film/c/'' ''C'', env)"
    let ?arr' = "?xs @ (\<lparr>link = None, img_alt = None\<rparr>, env) # ?ys"
    have cause': "response (snd ?x) = FetchRejected \<or> response (snd ?x) = Page None
        \<or> response (snd ?x) = Page (Some [])
        \<or> (\<exists>txt. response (snd ?x) = Page (Some txt) \<and> parseDate (snd ?x) txt = None)"
      using cause by simp
    obtain s s' where s:
      "showAnniversaries BATCH_SIZE DELAY_BETWEEN_BATCHES (?xs @ ?x # ?ys) None = Some s"
      "showAnniversaries BATCH_SIZE DELAY_BETWEEN_BATCHES
         (?xs @ (\<lparr>link = None, img_alt = None\<rparr>, snd ?x) # ?ys) None = Some s'"
      "movies s = movies s'"
      "length (progress_of (trace s)) = (length (?xs @ ?x # ?ys) + BATCH_SIZE - 1) div BATCH_SIZE"
      "last (progress_of (trace s)) = length (?xs @ ?x # ?ys)"
      using showAnniversaries_partial_failure [OF b lk cause' nv uq, of DELAY_BETWEEN_BATCHES]
      by blast
    have "length (progress_of (trace s)) = 1" using s(4) by (simp add: BATCH_SIZE_def)
    then have p: "progress_of (trace s) = [5]"
      using s(5) by (cases "progress_of (trace s)") simp_all
    have turn: "\<forall>x \<in> set ?arr'. \<forall>k. awaits (snd x) k = 0"
      using aw by (simp add: env_ok_def)
    have "movies s'
        = array_sort compareAnniversary (successes (run_results BATCH_SIZE None ?arr'))"
      using s(2) by (auto simp: showAnniversaries_eq [OF b])
    then have "map title (movies s') = [''A'', ''B'', ''D'', ''E'']"
      unfolding run_in_turn [OF b turn]
      by (simp add: resolveInTurn_Cons ok no lookup_def array_sort_def compareAnniversary_def)
    then show ?thesis using s(1,3) p by (simp add: onClick_def)
  qed
  have "response env_offline = FetchRejected" "response env_nodate = Page None"
    "response env_blank = Page (Some [])" "response env_garbage = Page (Some ''soon'')"
    "parseDate env_garbage ''soon'' = None"
    and aw: "awaits env_offline k = 0" "awaits env_nodate k = 0" "awaits env_blank k = 0"
      "awaits env_garbage k = 0" for k
    by (simp_all add: env_offline_def env_nodate_def env_blank_def env_garbage_def env_ok_def
        sample_parse_def)
  then show ?thesis
    using b main [of env_offline] main [of env_nodate] main [of env_blank]
      main [of env_garbage]
    by (simp add: poster_def lookup_def)
qed
section \<open>Resolving twice\<close>



section \<open>The next milestone anniversary\<close>

text \<open>
  Claim C7, as the code has it. For every clock reading and every release date, the
  \<open>years\<close> that \<open>calculateNextMilestoneAnniversary\<close> returns are a multiple of 5, not
  negative when the release year is less than 5 years after the current year; the release
  date moved by \<open>years\<close> years is on or after today's date, and moved by any smaller
  multiple of 5 it is not after today's date; the returned date is never before today's
  date (nor before the clock reading).
\<close>

theorem calculateNextMilestoneAnniversary_smallest:
  assumes "valid_date now" and "valid_date rel"
  shows "5 dvd years (calculateNextMilestoneAnniversary now rel)
    \<and> (year rel < year now + 5 \<longrightarrow>
          0 \<le> years (calculateNextMilestoneAnniversary now rel))
    \<and> Day now \<le> Day (setFullYear (year rel
            + years (calculateNextMilestoneAnniversary now rel)) rel)
    \<and> (\<forall>k. 5 dvd k \<and> k < years (calculateNextMilestoneAnniversary now rel) \<longrightarrow>
          Day (setFullYear (year rel + k) rel) \<le> Day now)
    \<and> Day now \<le> Day (date (calculateNextMilestoneAnniversary now rel))
    \<and> \<not> date_lt (date (calculateNextMilestoneAnniversary now rel)) now"
proof -
  note i = calculateNextMilestoneAnniversary_instant [OF assms]
  have a: "\<not> date_lt (date (calculateNextMilestoneAnniversary now rel)) now"
    and b: "\<not> date_lt (setFullYear (year rel
            + years (calculateNextMilestoneAnniversary now rel)) rel) now"
    and c: "\<forall>k. 5 dvd k \<and> k < years (calculateNextMilestoneAnniversary now rel) \<longrightarrow>
          date_lt (setFullYear (year rel + k) rel) now"
    using i by blast+
  have "Day now \<le> Day (date (calculateNextMilestoneAnniversary now rel))"
    using a by (simp add: date_lt_def Day_mono)
  moreover have "Day now \<le> Day (setFullYear (year rel
            + years (calculateNextMilestoneAnniversary now rel)) rel)"
    using b by (simp add: date_lt_def Day_mono)
  moreover have "Day (setFullYear (year rel + k) rel) \<le> Day now"
    if "5 dvd k" and "k < years (calculateNextMilestoneAnniversary now rel)" for k
  proof -
    have "getTime (setFullYear (year rel + k) rel) < getTime now"
      using c that by (simp add: date_lt_def)
    then show ?thesis by (simp add: Day_mono)
  qed
  ultimately show ?thesis
    using i by blast
qed

theorem calculateNextMilestoneAnniversary_smallest_witness:
  "valid_date \<lparr>year = 2025, month = 2, day = 1, msInDay = 0\<rparr>
   \<and> valid_date \<lparr>year = 2000, month = 0, day = 1, msInDay = 0\<rparr>
   \<and> (2000::int) < 2025 + 5
   \<and> 5 dvd (25::int) \<and> (25::int) < 30
   \<and> calculateNextMilestoneAnniversary \<lparr>year = 2025, month = 2, day = 1, msInDay = 0\<rparr>
         \<lparr>year = 2000, month = 0, day = 1, msInDay = 0\<rparr>
       = \<lparr>date = \<lparr>year = 2030, month = 0, day = 1, msInDay = 0\<rparr>, years = 30\<rparr>
   \<and> Day (setFullYear (2000 + 25) \<lparr>year = 2000, month = 0, day = 1, msInDay = 0\<rparr>)
       \<le> Day \<lparr>year = 2025, month = 2, day = 1, msInDay = 0\<rparr>
   \<and> Day \<lparr>year = 2025, month = 2, day = 1, msInDay = 0\<rparr>
       \<le> Day (setFullYear (2000 + 30) \<lparr>year = 2000, month = 0, day = 1, msInDay = 0\<rparr>)
   \<and> Day \<lparr>year = 2025, month = 2, day = 1, msInDay = 0\<rparr>
       \<le> Day \<lparr>year = 2030, month = 0, day = 1, msInDay = 0\<rparr>"
proof -
  have v: "valid_date \<lparr>year = 2025, month = 2, day = 1, msInDay = 0\<rparr>"
    "valid_date \<lparr>year = 2000, month = 0, day = 1, msInDay = 0\<rparr>"
    by (simp_all add: valid_date_def daysInMonth_def msPerDay_def)
  have r: "calculateNextMilestoneAnniversary \<lparr>year = 2025, month = 2, day = 1, msInDay = 0\<rparr>
         \<lparr>year = 2000, month = 0, day = 1, msInDay = 0\<rparr>
       = \<lparr>date = \<lparr>year = 2030, month = 0, day = 1, msInDay = 0\<rparr>, years = 30\<rparr>"
    by (simp add: date_eval)
  have a: "\<forall>k::int. 5 dvd k \<and> k < 30 \<longrightarrow>
      Day (setFullYear (2000 + k) \<lparr>year = 2000, month = 0, day = 1, msInDay = 0\<rparr>)
        \<le> Day \<lparr>year = 2025, month = 2, day = 1, msInDay = 0\<rparr>"
    and b: "Day \<lparr>year = 2025, month = 2, day = 1, msInDay = 0\<rparr>
       \<le> Day (setFullYear (2000 + 30) \<lparr>year = 2000, month = 0, day = 1, msInDay = 0\<rparr>)"
    and c: "Day \<lparr>year = 2025, month = 2, day = 1, msInDay = 0\<rparr>
       \<le> Day \<lparr>year = 2030, month = 0, day = 1, msInDay = 0\<rparr>"
    using calculateNextMilestoneAnniversary_smallest [OF v] r by simp_all
  have "Day (setFullYear (2000 + 25) \<lparr>year = 2000, month = 0, day = 1, msInDay = 0\<rparr>)
        \<le> Day \<lparr>year = 2025, month = 2, day = 1, msInDay = 0\<rparr>"
    using a [rule_format, of 25] by simp
  then show ?thesis
    using v r b c by simp
qed

text \<open>
  The claim as written fails in two ways. For a film not yet released the \<open>years\<close> can be
  negative: on 1 January 2025 a release on 15 June 2031 gives \<open>years = -5\<close>. And on the
  day of a milestone the \<open>years\<close> are not the smallest that reach today's date once the
  release date's time of day has passed: at ten in the morning of 15 June 2025 a film
  released on 15 June 2000 gets \<open>years = 30\<close>, although moved by 25 years it is on today's
  date; the comparison of line 385 is one of instants, not of days.
\<close>

theorem calculateNextMilestoneAnniversary_counterexample:
  "valid_date \<lparr>year = 2025, month = 0, day = 1, msInDay = 0\<rparr>
   \<and> valid_date \<lparr>year = 2031, month = 5, day = 15, msInDay = 0\<rparr>
   \<and> years (calculateNextMilestoneAnniversary \<lparr>year = 2025, month = 0, day = 1, msInDay = 0\<rparr>
         \<lparr>year = 2031, month = 5, day = 15, msInDay = 0\<rparr>) = - 5
   \<and> \<not> 0 \<le> years (calculateNextMilestoneAnniversary
         \<lparr>year = 2025, month = 0, day = 1, msInDay = 0\<rparr>
         \<lparr>year = 2031, month = 5, day = 15, msInDay = 0\<rparr>)
   \<and> valid_date \<lparr>year = 2025, month = 5, day = 15, msInDay = 36000000\<rparr>
   \<and> valid_date \<lparr>year = 2000, month = 5, day = 15, msInDay = 0\<rparr>
   \<and> years (calculateNextMilestoneAnniversary
         \<lparr>year = 2025, month = 5, day = 15, msInDay = 36000000\<rparr>
         \<lparr>year = 2000, month = 5, day = 15, msInDay = 0\<rparr>) = 30
   \<and> 5 dvd (25::int) \<and> (0::int) \<le> 25 \<and> (25::int) < 30
   \<and> Day \<lparr>year = 2025, month = 5, day = 15, msInDay = 36000000\<rparr>
       \<le> Day (setFullYear (2000 + 25) \<lparr>year = 2000, month = 5, day = 15, msInDay = 0\<rparr>)"
  by (simp add: date_eval)

section \<open>Cache expiry\<close>

text \<open>
  Claim C8. For every entry with a link and a title whose address has a cache entry, when
  the storage can be read: the resolution makes no request exactly when the clock reading
  minus the entry's \<open>lastFetched\<close> is less than \<open>CACHE_EXPIRY\<close>, and then it returns the
  cached dates; \<open>CACHE_EXPIRY\<close> is the constant 24 * 60 * 60 * 1000; and an entry fetched
  24 hours and 1 millisecond ago is fetched again.
\<close>

theorem resolveMovie_expiry:
  assumes "link el = Some u" and "img_alt el = Some t" and "t \<noteq> []" and "get1_ok env"
    and "lookup st u = Some e"
  shows "(Fetch u \<notin> set (snd (snd (resolveMovie env st el)))
            \<longleftrightarrow> now1 env - lastFetched e < CACHE_EXPIRY)
    \<and> (now1 env - lastFetched e < CACHE_EXPIRY \<longrightarrow>
          resolveMovie env st el =
            (Some \<lparr>title = t, releaseDate = dateOfISO (cachedReleaseDate e),
                    nextAnniversary = dateOfISO (cachedNextAnniversary e), url = u\<rparr>,
             st, [StorageGet]))
    \<and> CACHE_EXPIRY = 24 * 60 * 60 * 1000
    \<and> (now1 env - lastFetched e = CACHE_EXPIRY + 1 \<longrightarrow>
          Fetch u \<in> set (snd (snd (resolveMovie env st el))))"
proof -
  have hit: "resolveMovie env st el =
      (Some \<lparr>title = t, releaseDate = dateOfISO (cachedReleaseDate e),
              nextAnniversary = dateOfISO (cachedNextAnniversary e), url = u\<rparr>,
       st, [StorageGet])"
    if "now1 env - lastFetched e < CACHE_EXPIRY"
    using resolveMovie_hit [OF assms that] .
  have miss: "Fetch u \<in> set (snd (snd (resolveMovie env st el)))"
    if "\<not> now1 env - lastFetched e < CACHE_EXPIRY"
  proof -
    have "\<forall>e'. lookup st u = Some e' \<longrightarrow> \<not> now1 env - lastFetched e' < CACHE_EXPIRY"
      using assms(5) that by simp
    then show ?thesis
      using resolveMovie_miss [OF assms(1-4)] fetchFresh_fetches [of u env st t] by simp
  qed
  have "Fetch u \<notin> set (snd (snd (resolveMovie env st el)))
      \<longleftrightarrow> now1 env - lastFetched e < CACHE_EXPIRY"
    using hit miss by auto
  moreover have "Fetch u \<in> set (snd (snd (resolveMovie env st el)))"
    if "now1 env - lastFetched e = CACHE_EXPIRY + 1"
    using miss that by simp
  ultimately show ?thesis using hit by (simp add: CACHE_EXPIRY_def)
qed

theorem resolveMovie_expiry_witness:
  "link (poster ''/film/a/'' ''A'') = Some ''/film/a/''
   \<and> img_alt (poster ''/film/a/'' ''A'') = Some ''A'' \<and> ''A'' \<noteq> []
   \<and> get1_ok (env_ok\<lparr>now1 := 1749902400000 + 86400001\<rparr>)
   \<and> lookup (Some [''/film/a/'' \<mapsto> cached_at 1749902400000]) ''/film/a/''
       = Some (cached_at 1749902400000)
   \<and> now1 (env_ok\<lparr>now1 := 1749902400000 + 86400001\<rparr>) - lastFetched (cached_at 1749902400000)
       = CACHE_EXPIRY + 1
   \<and> \<not> now1 (env_ok\<lparr>now1 := 1749902400000 + 86400001\<rparr>)
         - lastFetched (cached_at 1749902400000) < CACHE_EXPIRY
   \<and> Fetch ''/film/a/'' \<in> set (snd (snd (resolveMovie
         (env_ok\<lparr>now1 := 1749902400000 + 86400001\<rparr>)
         (Some [''/film/a/'' \<mapsto> cached_at 1749902400000]) (poster ''/film/a/'' ''A''))))
   \<and> now1 (env_ok\<lparr>now1 := 1749902400000 + 86399999\<rparr>)
         - lastFetched (cached_at 1749902400000) < CACHE_EXPIRY
   \<and> Fetch ''/film/a/'' \<notin> set (snd (snd (resolveMovie
         (env_ok\<lparr>now1 := 1749902400000 + 86399999\<rparr>)
         (Some [''/film/a/'' \<mapsto> cached_at 1749902400000]) (poster ''/film/a/'' ''A''))))"
proof -
  let ?st = "Some [''/film/a/'' \<mapsto> cached_at 1749902400000]"
  have el: "link (poster ''/film/a/'' ''A'') = Some ''/film/a/''"
    "img_alt (poster ''/film/a/'' ''A'') = Some ''A''" "''A'' \<noteq> []"
    by (simp_all add: poster_def)
  have g: "get1_ok (env_ok\<lparr>now1 := n\<rparr>)" for n
    by (simp add: env_ok_def)
  have l: "lookup ?st ''/film/a/'' = Some (cached_at 1749902400000)"
    by (simp add: lookup_def)
  have late: "now1 (env_ok\<lparr>now1 := 1749902400000 + 86400001\<rparr>)
      - lastFetched (cached_at 1749902400000) = CACHE_EXPIRY + 1"
    and early: "now1 (env_ok\<lparr>now1 := 1749902400000 + 86399999\<rparr>)
      - lastFetched (cached_at 1749902400000) < CACHE_EXPIRY"
    by (simp_all add: cached_at_def CACHE_EXPIRY_def)
  show ?thesis
    using resolveMovie_expiry [OF el g l, of "1749902400000 + 86400001"]
      resolveMovie_expiry [OF el g l, of "1749902400000 + 86399999"]
      el g l late early
    by simp
qed

section \<open>The schedule\<close>

text \<open>
  Claim C9. For every run with a batch size that is not 0, the effects of the run are
  those of the schedule: each batch is resolved, then progress is reported once, then,
  unless the batch was the last one, the timer is set for the delay before the next batch
  starts. So there is one timer less than there are batches, each for the delay, and the
  last effect of a run over a list that is not empty is the last progress report. The
  program runs with a batch size of 5 and a delay of 1000 ms.
\<close>

theorem showAnniversaries_schedule:
  assumes "0 < b"
  shows "\<exists>s. showAnniversaries b d arr st = Some s
    \<and> trace s = schedule_trace d (length arr) 0 st (chunks b arr)
    \<and> delays_of (trace s) = replicate (length (batches_of (trace s)) - 1) d
    \<and> length (progress_of (trace s)) = length (batches_of (trace s))
    \<and> (arr \<noteq> [] \<longrightarrow> last (trace s) = Progress (length arr) (length arr))
    \<and> onClick = showAnniversaries 5 1000"
proof -
  define s where "s = \<lparr>processedMovies = length arr,
      movies = array_sort compareAnniversary (successes (run_results b st arr)),
      cache = run_cache b st arr,
      trace = schedule_trace d (length arr) 0 st (chunks b arr)\<rparr>"
  have run: "showAnniversaries b d arr st = Some s"
    by (simp add: s_def showAnniversaries_eq [OF assms])
  have tr: "trace s = schedule_trace d (length arr) 0 st (chunks b arr)"
    by (simp add: s_def)
  have "delays_of (trace s) = replicate (length (batches_of (trace s)) - 1) d"
    and "length (progress_of (trace s)) = length (batches_of (trace s))"
    by (simp_all add: tr schedule_trace_reads)
  moreover have "last (trace s) = Progress (length arr) (length arr)" if "arr \<noteq> []"
  proof -
    have "chunks b arr \<noteq> []" using that by (simp add: chunks_eq_Nil [OF assms])
    then show ?thesis
      by (simp add: tr last_schedule_trace concat_chunks [OF assms])
  qed
  moreover have "onClick = showAnniversaries 5 1000"
    by (simp add: onClick_def BATCH_SIZE_def DELAY_BETWEEN_BATCHES_def)
  ultimately show ?thesis using run tr by blast
qed

theorem showAnniversaries_schedule_witness:
  "(0::nat) < 2
   \<and> [(poster ''/film/a/'' ''A'', env_offline), (poster ''/film/b/'' ''B'', env_offline),
       (poster ''/film/c/'' ''C'', env_offline)] \<noteq> []
   \<and> (\<exists>s. showAnniversaries 2 1000
         [(poster ''/film/a/'' ''A'', env_offline), (poster ''/film/b/'' ''B'', env_offline),
          (poster ''/film/c/'' ''C'', env_offline)] None = Some s
       \<and> trace s =
           [BatchStart [poster ''/film/a/'' ''A'', poster ''/film/b/'' ''B''],
            StorageGet, Fetch ''/film/a/'', ConsoleError ''A'',
            StorageGet, Fetch ''/film/b/'', ConsoleError ''B'',
            Progress 2 3, Delay 1000,
            BatchStart [poster ''/film/c/'' ''C''],
            StorageGet, Fetch ''/film/c/'', ConsoleError ''C'',
            Progress 3 3]
       \<and> delays_of (trace s) = [1000]
       \<and> last (trace s) = Progress 3 3)"
proof -
  let ?arr = "[(poster ''/film/a/'' ''A'', env_offline), (poster ''/film/b/'' ''B'', env_offline),
          (poster ''/film/c/'' ''C'', env_offline)]"
  have b: "(0::nat) < 2" by simp
  have rm: "t \<noteq> [] \<Longrightarrow> resolveMovie env_offline None (poster u t)
      = (None, None, [StorageGet, Fetch u, ConsoleError t])" for u t
    by (simp add: resolveMovie_def fetchFresh_def lookup_def poster_def env_offline_def
        env_ok_def)
  have turn: "resolveBatch st [(poster ''/film/a/'' ''A'', env_offline),
        (poster ''/film/b/'' ''B'', env_offline)]
      = resolveInTurn st [(poster ''/film/a/'' ''A'', env_offline),
        (poster ''/film/b/'' ''B'', env_offline)]"
    "resolveBatch st [(poster ''/film/c/'' ''C'', env_offline)]
      = resolveInTurn st [(poster ''/film/c/'' ''C'', env_offline)]" for st
    by (rule resolveBatch_in_turn [where c = 0], simp add: env_offline_def env_ok_def)+
  have c: "chunks 2 ?arr
     = [[(poster ''/film/a/'' ''A'', env_offline), (poster ''/film/b/'' ''B'', env_offline)],
        [(poster ''/film/c/'' ''C'', env_offline)]]"
    by (simp add: chunks_step)
  have t: "schedule_trace 1000 (length ?arr) 0 None (chunks 2 ?arr) =
      [BatchStart [poster ''/film/a/'' ''A'', poster ''/film/b/'' ''B''],
       StorageGet, Fetch ''/film/a/'', ConsoleError ''A'',
       StorageGet, Fetch ''/film/b/'', ConsoleError ''B'',
       Progress 2 3, Delay 1000,
       BatchStart [poster ''/film/c/'' ''C''],
       StorageGet, Fetch ''/film/c/'', ConsoleError ''C'',
       Progress 3 3]"
    unfolding c by (simp add: turn rm cache_after_def)
  obtain s where s: "showAnniversaries 2 1000 ?arr None = Some s"
    "trace s = schedule_trace 1000 (length ?arr) 0 None (chunks 2 ?arr)"
    using showAnniversaries_schedule [OF b, of 1000 ?arr None] by blast
  have "trace s = [BatchStart [poster ''/film/a/'' ''A'', poster ''/film/b/'' ''B''],
       StorageGet, Fetch ''/film/a/'', ConsoleError ''A'',
       StorageGet, Fetch ''/film/b/'', ConsoleError ''B'',
       Progress 2 3, Delay 1000,
       BatchStart [poster ''/film/c/'' ''C''],
       StorageGet, Fetch ''/film/c/'', ConsoleError ''C'',
       Progress 3 3]"
    using s(2) t by simp
  then show ?thesis using s(1) by simp
qed

section \<open>The cached anniversary\<close>

text \<open>
  Claim C10. For every resolution that finds a cache entry still valid, the
  \<open>nextAnniversary\<close> returned is the one read back from the stored string, whatever the
  current date is: \<open>calculateNextAnniversary\<close> is not called. So the returned date is
  before the clock reading whenever the stored one is, as for a film whose anniversary was
  computed on its eve and is returned from the cache the next morning, six hours after it
  has passed.
\<close>

theorem resolveMovie_cached_anniversary:
  assumes "link el = Some u" and "img_alt el = Some t" and "t \<noteq> []" and "get1_ok env"
    and "lookup st u = Some e" and "now1 env - lastFetched e < CACHE_EXPIRY"
  shows "(\<exists>r. resolveMovie env st el = (Some r, st, [StorageGet])
          \<and> nextAnniversary r = dateOfISO (cachedNextAnniversary e)
          \<and> (getTime (dateOfISO (cachedNextAnniversary e)) < now1 env \<longrightarrow>
               getTime (nextAnniversary r) < now1 env))
    \<and> (\<forall>d. resolveMovie (env\<lparr>today := d\<rparr>) st el = resolveMovie env st el)"
proof -
  have "resolveMovie (env\<lparr>today := d\<rparr>) st el = resolveMovie env st el" for d
    using resolveMovie_hit [OF assms] resolveMovie_hit [OF assms(1-3), of "env\<lparr>today := d\<rparr>" st e]
      assms(4-6)
    by simp
  then show ?thesis
    using resolveMovie_hit [OF assms] by simp
qed

theorem resolveMovie_cached_anniversary_witness:
  "link (poster ''/film/a/'' ''A'') = Some ''/film/a/''
   \<and> img_alt (poster ''/film/a/'' ''A'') = Some ''A'' \<and> ''A'' \<noteq> []
   \<and> cache_after None [(poster ''/film/a/'' ''A'', env_eve)]
       = Some [''/film/a/'' \<mapsto> cached_at 1749902400000]
   \<and> get1_ok env_morning
   \<and> lookup (Some [''/film/a/'' \<mapsto> cached_at 1749902400000]) ''/film/a/''
       = Some (cached_at 1749902400000)
   \<and> now1 env_morning - lastFetched (cached_at 1749902400000) < CACHE_EXPIRY
   \<and> getTime (today env_morning) = now1 env_morning
   \<and> getTime (dateOfISO (cachedNextAnniversary (cached_at 1749902400000))) < now1 env_morning
   \<and> (\<exists>r. resolveMovie env_morning (Some [''/film/a/'' \<mapsto> cached_at 1749902400000])
             (poster ''/film/a/'' ''A'')
           = (Some r, Some [''/film/a/'' \<mapsto> cached_at 1749902400000], [StorageGet])
        \<and> nextAnniversary r = \<lparr>year = 2025, month = 5, day = 15, msInDay = 0\<rparr>
        \<and> getTime (nextAnniversary r) < now1 env_morning
        \<and> date_lt (nextAnniversary r) (today env_morning)
        \<and> calculateNextAnniversary (today env_morning) (releaseDate r)
            = \<lparr>year = 2026, month = 5, day = 15, msInDay = 0\<rparr>)"
proof -
  let ?st = "Some [''/film/a/'' \<mapsto> cached_at 1749902400000]"
  have el: "link (poster ''/film/a/'' ''A'') = Some ''/film/a/''"
    "img_alt (poster ''/film/a/'' ''A'') = Some ''A''" "''A'' \<noteq> []"
    by (simp_all add: poster_def)
  have nx: "calculateNextAnniversary (today env_eve)
      \<lparr>year = 2000, month = 5, day = 15, msInDay = 0\<rparr>
      = \<lparr>year = 2025, month = 5, day = 15, msInDay = 0\<rparr>"
    by (simp add: env_eve_def env_ok_def date_eval)
  have first: "cache_after None [(poster ''/film/a/'' ''A'', env_eve)] = ?st"
    using nx
    by (simp add: cache_after_def resolveBatch_in_turn [where c = 0] resolveMovie_def
        fetchFresh_def lookup_def poster_def Let_def env_eve_def env_ok_def sample_parse_def
        cached_at_def)
  have g: "get1_ok env_morning"
    by (simp add: env_morning_def env_ok_def)
  have l: "lookup ?st ''/film/a/'' = Some (cached_at 1749902400000)"
    by (simp add: lookup_def)
  have w: "now1 env_morning - lastFetched (cached_at 1749902400000) < CACHE_EXPIRY"
    by (simp add: env_morning_def env_ok_def cached_at_def CACHE_EXPIRY_def)
  have c: "getTime (today env_morning) = now1 env_morning"
    by (simp add: env_morning_def env_ok_def date_eval)
  have p: "getTime (dateOfISO (cachedNextAnniversary (cached_at 1749902400000)))
      < now1 env_morning"
    by (simp add: env_morning_def env_ok_def cached_at_def toISOString_def date_eval)
  obtain r where r:
    "resolveMovie env_morning ?st (poster ''/film/a/'' ''A'') = (Some r, ?st, [StorageGet])"
    "nextAnniversary r = dateOfISO (cachedNextAnniversary (cached_at 1749902400000))"
    "getTime (nextAnniversary r) < now1 env_morning"
    using resolveMovie_cached_anniversary [OF el g l w] p by blast
  have rel: "releaseDate r = \<lparr>year = 2000, month = 5, day = 15, msInDay = 0\<rparr>"
    using r(1) resolveMovie_hit [OF el g l w] by (auto simp: cached_at_def toISOString_def)
  have n: "nextAnniversary r = \<lparr>year = 2025, month = 5, day = 15, msInDay = 0\<rparr>"
    using r(2) by (simp add: cached_at_def toISOString_def)
  have again: "calculateNextAnniversary (today env_morning) (releaseDate r)
      = \<lparr>year = 2026, month = 5, day = 15, msInDay = 0\<rparr>"
    unfolding rel by (simp add: env_morning_def env_ok_def date_eval)
  have "date_lt (nextAnniversary r) (today env_morning)"
    using r(3) c by (simp add: date_lt_def)
  then show ?thesis
    using el first g l w c p r(1,3) n again by simp
qed


end
